theory Spec2Isabelle
  imports Main "HOL-Library.Word"
begin

unbundle bit_operations_syntax

section \<open>The SPSC ring buffer of internal/queue\<close>

text \<open>
  The model follows the Go source of \<^verbatim>\<open>RingBuffer\<close> (package queue) and of the unguarded
  \<^verbatim>\<open>spscRing\<close> (package combined_test), executed sequentially.

  \<^item> Go's \<^verbatim>\<open>uint64\<close> is \<open>64 word\<close>: \<open>+\<close> and \<open>-\<close> wrap, \<open>\<le>\<close> and \<open><\<close> compare unsigned.
  \<^item> Go's \<^verbatim>\<open>int\<close> is taken at its 64-bit width, as on amd64 and arm64: an
    \<^verbatim>\<open>int\<close> argument is a \<open>64 word\<close> read through \<open>sint\<close>, and the conversion
    \<^verbatim>\<open>uint64(size)\<close> keeps the bits.
  \<^item> The atomic fields are plain fields: a sequential execution sees every load and store
    in program order. The padding fields carry no data and are left out.
  \<^item> A panic is a value of type \<open>panic\<close>; every call returns its outcome together with the
    state it leaves behind, so the effect of the deferred \<^verbatim>\<open>Store(0)\<close> is visible on
    every path.
  \<^item> \<^verbatim>\<open>var zero T\<close> is the \<open>0\<close> of the element type.
  \<^item> The size in bytes of the element type \<^verbatim>\<open>T\<close>, which Go reads off the type, is an
    explicit argument of \<open>NewRingBuffer\<close>; the elements of \<open>spscRing\<close> are \<^verbatim>\<open>int\<close>s
    of 8 bytes.
  \<^item> The checks of \<^verbatim>\<open>make\<close> are inside the model: a length that is negative as an
    \<^verbatim>\<open>int\<close>, or whose byte count overflows or exceeds the runtime's \<^verbatim>\<open>maxAlloc\<close>,
    panics. The allocation that follows those checks is taken to succeed: a machine that
    runs out of memory there is outside the model.
\<close>

type_synonym uint64 = "64 word"
type_synonym uint32 = "32 word"
type_synonym go_int = "64 word"

datatype panic =
    ConcurrentPush
  | ConcurrentPop
  | IndexOutOfRange
  | MakesliceLenOutOfRange

text \<open>The unguarded ring of the comparison benchmarks; its elements are Go \<^verbatim>\<open>int\<close>s.\<close>

record spscRing =
  buf :: "go_int list"
  mask :: uint64
  head :: uint64
  tail :: uint64

text \<open>The guarded ring. From here on the unqualified field names are those of
  \<open>RingBuffer\<close>; the fields of \<open>spscRing\<close> are written \<open>spscRing.buf\<close> and so on.\<close>

record 'a RingBuffer =
  buf :: "'a list"
  mask :: uint64
  head :: uint64
  tail :: uint64
  pushActive :: uint32
  popActive :: uint32

subsection \<open>Construction\<close>

text \<open>
  The rounding loop \<^verbatim>\<open>for n < uint64(size) { n <<= 1 }\<close>. It may run forever, so it is a
  partial function: \<open>None\<close> is the loop that never exits.
\<close>

partial_function (option) round_up_loop :: "uint64 \<Rightarrow> uint64 \<Rightarrow> uint64 option" where
  "round_up_loop n sz = (if n < sz then round_up_loop (push_bit 1 n) sz else Some n)"

text \<open>The Go runtime's bound on the bytes of one allocation, \<^verbatim>\<open>maxAlloc\<close>: \<open>2^48\<close> on the
  64-bit platforms with 48 address bits (amd64, arm64).\<close>

definition maxAlloc :: nat where
  "maxAlloc = 2 ^ 48"

text \<open>
  \<^verbatim>\<open>make([]T, n)\<close> for an \<^verbatim>\<open>n\<close> of type \<^verbatim>\<open>uint64\<close>, as the runtime's
  \<^verbatim>\<open>makeslice\<close> checks it: the length is converted to \<^verbatim>\<open>int\<close>; the byte count is
  the element size times the length, multiplied as \<^verbatim>\<open>uintptr\<close>s with the overflow
  reported. If the product overflows, or exceeds \<^verbatim>\<open>maxAlloc\<close>, or the length is negative,
  \<^verbatim>\<open>make\<close> panics with "makeslice: len out of range"; otherwise the slice holds \<^verbatim>\<open>n\<close>
  zero values.
\<close>

definition make_slice :: "nat \<Rightarrow> uint64 \<Rightarrow> panic + ('a::zero) list" where
  "make_slice elemsize n =
     (let mem = elemsize * unat n;
          overflow = (2 ^ 64 \<le> mem)
      in if overflow \<or> maxAlloc < mem \<or> sint n < 0 then Inl MakesliceLenOutOfRange
         else Inr (replicate (unat n) 0))"

text \<open>\<open>NewRingBuffer elemsize size\<close> is \<^verbatim>\<open>NewRingBuffer[T](size)\<close> for a \<^verbatim>\<open>T\<close> of
  \<open>elemsize\<close> bytes.\<close>

definition NewRingBuffer :: "nat \<Rightarrow> go_int \<Rightarrow> (panic + ('a::zero) RingBuffer) option" where
  "NewRingBuffer elemsize sz =
     (case round_up_loop 1 sz of
        None \<Rightarrow> None
      | Some n \<Rightarrow>
          Some (case make_slice elemsize n of
                  Inl p \<Rightarrow> Inl p
                | Inr b \<Rightarrow> Inr \<lparr>buf = b, mask = n - 1, head = 0, tail = 0,
                                pushActive = 0, popActive = 0\<rparr>))"

subsection \<open>Push, Pop, Len, Cap\<close>

definition Push :: "'a RingBuffer \<Rightarrow> 'a \<Rightarrow> (panic + bool) \<times> 'a RingBuffer" where
  "Push r v =
     (if pushActive r \<noteq> 0 then (Inl ConcurrentPush, r)
      else
        let r1 = r\<lparr>pushActive := 1\<rparr>;
            h = head r1;
            t = tail r1
        in if h - t \<ge> of_nat (length (buf r1)) then (Inr False, r1\<lparr>pushActive := 0\<rparr>)
           else if unat (h AND mask r1) < length (buf r1) then
             let r2 = r1\<lparr>buf := (buf r1)[unat (h AND mask r1) := v]\<rparr>;
                 r3 = r2\<lparr>head := h + 1\<rparr>
             in (Inr True, r3\<lparr>pushActive := 0\<rparr>)
           else (Inl IndexOutOfRange, r1\<lparr>pushActive := 0\<rparr>))"

definition Pop :: "('a::zero) RingBuffer \<Rightarrow> (panic + 'a \<times> bool) \<times> 'a RingBuffer" where
  "Pop r =
     (if popActive r \<noteq> 0 then (Inl ConcurrentPop, r)
      else
        let r1 = r\<lparr>popActive := 1\<rparr>;
            t = tail r1;
            h = head r1
        in if t \<ge> h then (Inr (0, False), r1\<lparr>popActive := 0\<rparr>)
           else if unat (t AND mask r1) < length (buf r1) then
             let v = buf r1 ! unat (t AND mask r1);
                 r2 = r1\<lparr>tail := t + 1\<rparr>
             in (Inr (v, True), r2\<lparr>popActive := 0\<rparr>)
           else (Inl IndexOutOfRange, r1\<lparr>popActive := 0\<rparr>))"

definition Len :: "'a RingBuffer \<Rightarrow> int" where
  "Len r = sint (head r - tail r)"

definition Cap :: "'a RingBuffer \<Rightarrow> int" where
  "Cap r = int (length (buf r))"

subsection \<open>The unguarded spscRing\<close>

definition newSPSCRing :: "go_int \<Rightarrow> (panic + spscRing) option" where
  "newSPSCRing sz =
     (case round_up_loop 1 sz of
        None \<Rightarrow> None
      | Some n \<Rightarrow>
          Some (case make_slice 8 n of
                  Inl p \<Rightarrow> Inl p
                | Inr b \<Rightarrow> Inr \<lparr>spscRing.buf = b, mask = n - 1, head = 0, tail = 0\<rparr>))"

definition spscRing_Push :: "spscRing \<Rightarrow> go_int \<Rightarrow> (panic + bool) \<times> spscRing" where
  "spscRing_Push s v =
     (let h = spscRing.head s;
          t = spscRing.tail s
      in if h - t \<ge> of_nat (length (spscRing.buf s)) then (Inr False, s)
         else if unat (h AND spscRing.mask s) < length (spscRing.buf s) then
           let s2 = s\<lparr>spscRing.buf := (spscRing.buf s)[unat (h AND spscRing.mask s) := v]\<rparr>;
               s3 = s2\<lparr>spscRing.head := h + 1\<rparr>
           in (Inr True, s3)
         else (Inl IndexOutOfRange, s))"

definition spscRing_Pop :: "spscRing \<Rightarrow> (panic + go_int \<times> bool) \<times> spscRing" where
  "spscRing_Pop s =
     (let t = spscRing.tail s;
          h = spscRing.head s
      in if t \<ge> h then (Inr (0, False), s)
         else if unat (t AND spscRing.mask s) < length (spscRing.buf s) then
           let v = spscRing.buf s ! unat (t AND spscRing.mask s);
               s2 = s\<lparr>spscRing.tail := t + 1\<rparr>
           in (Inr (v, True), s2)
         else (Inl IndexOutOfRange, s))"

subsection \<open>Sequential callers\<close>

text \<open>
  A sequential caller issues one call after the other on the same ring and records what
  each call returned. A panic is recorded and the caller goes on with the state the
  panicking call left, as a caller that recovers does.
\<close>

datatype 'a call = CallPush 'a | CallPop

datatype 'a outcome = PushReturned bool | PopReturned 'a bool | Panicked panic

fun call_RingBuffer :: "('a::zero) RingBuffer \<Rightarrow> 'a call \<Rightarrow> 'a outcome \<times> 'a RingBuffer" where
  "call_RingBuffer r (CallPush v) =
     (case Push r v of
        (Inl p, r') \<Rightarrow> (Panicked p, r')
      | (Inr ok, r') \<Rightarrow> (PushReturned ok, r'))"
| "call_RingBuffer r CallPop =
     (case Pop r of
        (Inl p, r') \<Rightarrow> (Panicked p, r')
      | (Inr (v, ok), r') \<Rightarrow> (PopReturned v ok, r'))"

fun run :: "('a::zero) RingBuffer \<Rightarrow> 'a call list \<Rightarrow> 'a outcome list \<times> 'a RingBuffer" where
  "run r [] = ([], r)"
| "run r (c # cs) =
     (case call_RingBuffer r c of
        (oc, r') \<Rightarrow> (case run r' cs of (ocs, r'') \<Rightarrow> (oc # ocs, r'')))"

fun call_spscRing :: "spscRing \<Rightarrow> go_int call \<Rightarrow> go_int outcome \<times> spscRing" where
  "call_spscRing s (CallPush v) =
     (case spscRing_Push s v of
        (Inl p, s') \<Rightarrow> (Panicked p, s')
      | (Inr ok, s') \<Rightarrow> (PushReturned ok, s'))"
| "call_spscRing s CallPop =
     (case spscRing_Pop s of
        (Inl p, s') \<Rightarrow> (Panicked p, s')
      | (Inr (v, ok), s') \<Rightarrow> (PopReturned v ok, s'))"

fun run_spscRing :: "spscRing \<Rightarrow> go_int call list \<Rightarrow> go_int outcome list \<times> spscRing" where
  "run_spscRing s [] = ([], s)"
| "run_spscRing s (c # cs) =
     (case call_spscRing s c of
        (oc, s') \<Rightarrow> (case run_spscRing s' cs of (ocs, s'') \<Rightarrow> (oc # ocs, s'')))"

text \<open>The values whose Push returned true, and the values returned by the Pops that
  returned true, each in call order.\<close>

fun pushed :: "'a call list \<Rightarrow> 'a outcome list \<Rightarrow> 'a list" where
  "pushed (CallPush v # cs) (PushReturned True # ocs) = v # pushed cs ocs"
| "pushed (c # cs) (oc # ocs) = pushed cs ocs"
| "pushed cs ocs = []"

fun popped :: "'a outcome list \<Rightarrow> 'a list" where
  "popped (PopReturned v True # ocs) = v # popped ocs"
| "popped (oc # ocs) = popped ocs"
| "popped [] = []"

fun is_panic :: "'a outcome \<Rightarrow> bool" where
  "is_panic (Panicked p) = True"
| "is_panic oc = False"

subsection \<open>The queue a ring holds\<close>

text \<open>
  The logical position \<open>i\<close> lives in the slot \<open>i AND mask\<close>; the positions from \<open>tail\<close>
  up to \<open>head\<close> hold the queued values, the oldest first.
\<close>

definition contents :: "'a RingBuffer \<Rightarrow> 'a list" where
  "contents r =
     map (\<lambda>i. buf r ! unat ((tail r + of_nat i) AND mask r)) [0..<unat (head r - tail r)]"

text \<open>What every ring built by \<open>NewRingBuffer\<close> and used sequentially satisfies: the
  storage length is a power of two that fits an \<^verbatim>\<open>int\<close>, the mask is that length minus
  one, at most that many slots are occupied, and no call is in progress.\<close>

definition ring_inv :: "'a RingBuffer \<Rightarrow> bool" where
  "ring_inv r \<longleftrightarrow>
     (\<exists>k\<le>62. length (buf r) = 2 ^ k \<and> mask r = 2 ^ k - 1 \<and> unat (head r - tail r) \<le> 2 ^ k)
     \<and> pushActive r = 0 \<and> popActive r = 0"

text \<open>A guarded ring of Go \<^verbatim>\<open>int\<close>s with its two guard flags forgotten.\<close>

definition unguarded :: "go_int RingBuffer \<Rightarrow> spscRing" where
  "unguarded r = \<lparr>spscRing.buf = buf r, mask = mask r, head = head r, tail = tail r\<rparr>"

text \<open>The values the doubling \<^verbatim>\<open>n\<close> of the rounding loop can take.\<close>

definition pow_or_zero :: "uint64 \<Rightarrow> bool" where
  "pow_or_zero n \<longleftrightarrow> n = 0 \<or> (\<exists>k<64. n = 2 ^ k)"

section \<open>Auxiliary facts\<close>

subsection \<open>Words as naturals\<close>

lemma unat_pow64: "k < 64 \<Longrightarrow> unat ((2::uint64) ^ k) = 2 ^ k"
proof -
  assume k: "k < 64"
  have "(2::uint64) ^ k = of_nat (2 ^ k)" by simp
  then have "unat ((2::uint64) ^ k) = 2 ^ k mod 2 ^ 64"
    by (simp only: unat_of_nat) simp
  moreover have "(2::nat) ^ k < 2 ^ 64" using k by (simp only: power_strict_increasing_iff) 
  ultimately show ?thesis by simp
qed

lemma pow64_le_iff: "j < 64 \<Longrightarrow> k < 64 \<Longrightarrow> (2::uint64) ^ j \<le> 2 ^ k \<longleftrightarrow> j \<le> k"
  by (simp only: word_le_nat_alt unat_pow64 power_increasing_iff)

lemma double_pow64: "push_bit 1 ((2::uint64) ^ k) = 2 ^ Suc k"
  by (simp add: push_bit_eq_mult)

lemma mask_as_pow: "(2::uint64) ^ k - 1 = Bit_Operations.mask k"
  by (simp add: mask_eq_exp_minus_1)

lemma slot_mod: "unat (x AND ((2::uint64) ^ k - 1)) = unat x mod 2 ^ k"
proof -
  have "unat (x AND ((2::uint64) ^ k - 1)) = unat (take_bit k x)"
    by (simp only: mask_as_pow take_bit_eq_mask)
  also have "\<dots> = take_bit k (unat x)" by (rule unsigned_take_bit_eq)
  also have "\<dots> = unat x mod 2 ^ k" by (rule take_bit_eq_mod)
  finally show ?thesis .
qed

lemma slot_add:
  "k \<le> 64 \<Longrightarrow> unat ((t + of_nat i) AND ((2::uint64) ^ k - 1)) = (unat t + i) mod 2 ^ k"
proof -
  assume k: "k \<le> 64"
  have d: "(2::nat) ^ k dvd 2 ^ 64" using k by (rule le_imp_power_dvd)
  have "unat (t + of_nat i :: uint64) = (unat t + i mod 2 ^ 64) mod 2 ^ 64"
    by (simp add: unat_word_ariths unat_of_nat)
  also have "\<dots> = (unat t + i) mod 2 ^ 64" by (simp add: mod_add_right_eq)
  finally have "unat (t + of_nat i :: uint64) mod 2 ^ k = (unat t + i) mod 2 ^ k"
    using d by (simp only: mod_mod_cancel)
  then show ?thesis by (simp only: slot_mod)
qed

lemma bit63: "bit (x::uint64) 63 \<longleftrightarrow> 2 ^ 63 \<le> unat x"
proof -
  have "bit x 63 \<longleftrightarrow> bit (unat x) 63" by (simp add: bit_unsigned_iff)
  also have "\<dots> \<longleftrightarrow> odd (unat x div 2 ^ 63)" by (rule bit_iff_odd)
  also have "\<dots> \<longleftrightarrow> 2 ^ 63 \<le> unat x"
  proof -
    have "unat x < 2 ^ 64" using unsigned_less[of x] by simp
    then have "unat x div 2 ^ 63 < 2" by simp
    then have "unat x div 2 ^ 63 = 0 \<or> unat x div 2 ^ 63 = 1" by arith
    then show ?thesis by (auto simp: div_eq_0_iff)
  qed
  finally show ?thesis .
qed

lemma sint64_neg: "sint (x::uint64) < 0 \<longleftrightarrow> 2 ^ 63 \<le> unat x"
  using bit_last_iff[of x] bit63[of x] by simp

lemma sint64_small: "unat (x::uint64) < 2 ^ 63 \<Longrightarrow> sint x = int (unat x)"
proof -
  assume a: "unat x < 2 ^ 63"
  then have nb: "\<not> bit x 63" by (simp only: bit63 not_le)
  then have "\<not> bit (uint x) 63" by (simp add: bit_unsigned_iff)
  then have "signed_take_bit 63 (uint x) = take_bit 63 (uint x)"
    by (rule signed_take_bit_eq_if_positive)
  moreover have "sint x = signed_take_bit 63 (uint x)" by (simp add: sint_uint)
  moreover have "take_bit 63 (uint x) = uint x"
  proof -
    have "int (unat x) < int (2 ^ 63)" using a by (simp only: of_nat_less_iff)
    then have "uint x < 2 ^ 63" by simp
    then show ?thesis by (simp only: take_bit_int_eq_self_iff) simp
  qed
  moreover have "int (unat x) = uint x" by simp
  ultimately show ?thesis by (simp only:)
qed

subsection \<open>The rounding loop\<close>

lemma round_up_loop_exit: "\<not> n < sz \<Longrightarrow> round_up_loop n sz = Some n"
  by (subst round_up_loop.simps) simp

lemma round_up_loop_step: "n < sz \<Longrightarrow> round_up_loop n sz = round_up_loop (push_bit 1 n) sz"
  by (subst round_up_loop.simps) simp

lemma round_up_loop_from_pow:
  "k \<le> 63 \<Longrightarrow> sz \<le> 2 ^ 63 \<Longrightarrow> \<forall>j<k. (2::uint64) ^ j < sz \<Longrightarrow>
   \<exists>m. k \<le> m \<and> m \<le> 63 \<and> round_up_loop (2 ^ k) sz = Some (2 ^ m) \<and> sz \<le> 2 ^ m
      \<and> (\<forall>j<m. (2::uint64) ^ j < sz)"
proof (induction "63 - k" arbitrary: k)
  case 0
  then have k: "k = 63" by simp
  have "round_up_loop (2 ^ k) sz = Some (2 ^ k)"
    using "0.prems"(2) k by (intro round_up_loop_exit) (simp only: not_less)
  with 0 k show ?case by blast
next
  case (Suc d)
  show ?case
  proof (cases "(2::uint64) ^ k < sz")
    case False
    then have "round_up_loop (2 ^ k) sz = Some (2 ^ k)" by (rule round_up_loop_exit)
    moreover have "sz \<le> 2 ^ k" using False by (simp only: not_less)
    ultimately show ?thesis using Suc.prems by blast
  next
    case True
    have k: "Suc k \<le> 63" and d: "d = 63 - Suc k" using Suc.hyps(2) by simp_all
    have all: "\<forall>j<Suc k. (2::uint64) ^ j < sz"
      using True Suc.prems(3) by (auto simp: less_Suc_eq)
    from Suc.hyps(1)[OF d k Suc.prems(2) all]
    obtain m where m: "Suc k \<le> m" "m \<le> 63" "round_up_loop (2 ^ Suc k) sz = Some (2 ^ m)"
       "sz \<le> 2 ^ m" "\<forall>j<m. (2::uint64) ^ j < sz"
      by blast
    have "round_up_loop (2 ^ k) sz = Some (2 ^ m)"
      using round_up_loop_step[OF True] m(3) by (simp only: double_pow64)
    moreover have "k \<le> m" using m(1) by simp
    ultimately show ?thesis using m by blast
  qed
qed

lemma round_up_loop_total:
  assumes "sz \<le> 2 ^ 63"
  shows "\<exists>m\<le>63. round_up_loop 1 sz = Some (2 ^ m) \<and> sz \<le> 2 ^ m \<and> (\<forall>j<m. (2::uint64) ^ j < sz)"
proof -
  have "\<forall>j<(0::nat). (2::uint64) ^ j < sz" by simp
  from round_up_loop_from_pow[of 0 sz, OF _ assms this]
  show ?thesis by (simp only: power_0) blast
qed

lemma pow_or_zero_double: "pow_or_zero n \<Longrightarrow> pow_or_zero (push_bit 1 n)"
  unfolding pow_or_zero_def
proof (elim disjE exE conjE)
  fix k assume k: "k < 64" and n: "n = 2 ^ k"
  show "push_bit 1 n = 0 \<or> (\<exists>k<64. push_bit 1 n = 2 ^ k)"
  proof (cases "k = 63")
    case True
    then show ?thesis using n by (simp add: push_bit_eq_mult)
  next
    case False
    then have "Suc k < 64" using k by simp
    moreover have "push_bit 1 n = 2 ^ Suc k" using n by (simp only: double_pow64)
    ultimately show ?thesis by blast
  qed
qed simp

lemma pow_or_zero_le: "pow_or_zero n \<Longrightarrow> n \<le> 2 ^ 63"
  unfolding pow_or_zero_def
proof (elim disjE exE conjE)
  fix k assume "k < 64" "n = 2 ^ k"
  then show "n \<le> 2 ^ 63" using pow64_le_iff[of k 63] by simp
qed simp

lemma round_up_loop_Some_not_big:
  "round_up_loop n sz = Some y \<Longrightarrow> \<not> (2 ^ 63 < sz \<and> pow_or_zero n)"
proof (rule round_up_loop.raw_induct[where P = "\<lambda>n sz y. \<not> (2 ^ 63 < sz \<and> pow_or_zero n)"])
  fix f :: "uint64 \<Rightarrow> uint64 \<Rightarrow> uint64 option" and n sz y
  assume IH: "\<And>n sz y. f n sz = Some y \<Longrightarrow> \<not> (2 ^ 63 < sz \<and> pow_or_zero n)"
    and body: "(if n < sz then f (push_bit 1 n) sz else Some n) = Some y"
  show "\<not> (2 ^ 63 < sz \<and> pow_or_zero n)"
  proof
    assume a: "2 ^ 63 < sz \<and> pow_or_zero n"
    then have "n \<le> 2 ^ 63" by (simp only: pow_or_zero_le)
    with a have "n < sz" by (meson order_le_less_trans)
    with body have "f (push_bit 1 n) sz = Some y" by simp
    from IH[OF this] a pow_or_zero_double[of n] show False by blast
  qed
qed

lemma round_up_loop_diverges: "2 ^ 63 < sz \<Longrightarrow> round_up_loop 1 sz = None"
proof -
  assume a: "2 ^ 63 < sz"
  have "pow_or_zero 1" unfolding pow_or_zero_def by (rule disjI2, rule exI[of _ 0]) simp
  with a round_up_loop_Some_not_big[of 1 sz] show ?thesis
    by (cases "round_up_loop 1 sz") blast+
qed

subsection \<open>Single calls\<close>

lemma Push_full:
  "pushActive r = 0 \<Longrightarrow> of_nat (length (buf r)) \<le> head r - tail r \<Longrightarrow> Push r v = (Inr False, r)"
  by (simp add: Push_def Let_def)

lemma Pop_empty:
  "popActive r = 0 \<Longrightarrow> head r \<le> tail r \<Longrightarrow> Pop r = (Inr (0, False), r)"
  by (simp add: Pop_def Let_def)

lemma ring_inv_slot:
  assumes "k \<le> 62" "length (buf r) = 2 ^ k" "mask r = 2 ^ k - 1"
  shows "unat (x AND mask r) < length (buf r)"
  using assms by (simp only: slot_mod) simp

lemma of_nat_pow64: "of_nat (2 ^ k) = (2::uint64) ^ k"
  by simp

lemma ring_inv_full_iff:
  assumes "k \<le> 62" "length (buf r) = 2 ^ k"
  shows "of_nat (length (buf r)) \<le> head r - tail r \<longleftrightarrow> 2 ^ k \<le> unat (head r - tail r)"
proof -
  have "k < 64" using assms(1) by simp
  then show ?thesis
    by (simp only: assms(2) of_nat_pow64 word_le_nat_alt unat_pow64)
qed

lemma Push_ok:
  assumes "ring_inv r" "unat (head r - tail r) < length (buf r)"
  shows "Push r v = (Inr True, r\<lparr>buf := (buf r)[unat (head r AND mask r) := v], head := head r + 1\<rparr>)"
proof -
  from assms(1) obtain k where k: "k \<le> 62" "length (buf r) = 2 ^ k" "mask r = 2 ^ k - 1"
    and fl: "pushActive r = 0" unfolding ring_inv_def by blast
  have nf: "\<not> of_nat (length (buf r)) \<le> head r - tail r"
    using assms(2) k(2) ring_inv_full_iff[OF k(1,2)] by simp
  have ix: "unat (head r AND mask r) < length (buf r)" by (rule ring_inv_slot[OF k])
  show ?thesis using fl nf ix by (simp add: Push_def Let_def)
qed

lemma Pop_ok:
  assumes "ring_inv r" "tail r < head r"
  shows "Pop r = (Inr (buf r ! unat (tail r AND mask r), True), r\<lparr>tail := tail r + 1\<rparr>)"
proof -
  from assms(1) obtain k where k: "k \<le> 62" "length (buf r) = 2 ^ k" "mask r = 2 ^ k - 1"
    and fl: "popActive r = 0" unfolding ring_inv_def by blast
  have ix: "unat (tail r AND mask r) < length (buf r)" by (rule ring_inv_slot[OF k])
  show ?thesis using fl assms(2) ix by (simp add: Pop_def Let_def not_le)
qed


subsection \<open>How a call changes the queue\<close>

lemma mod_slots_distinct:
  fixes t i j n :: nat
  assumes "i < j" "j - i < n"
  shows "(t + i) mod n \<noteq> (t + j) mod n"
proof
  assume "(t + i) mod n = (t + j) mod n"
  then have "(t + j) mod n = (t + i) mod n" by simp
  moreover have "t + i \<le> t + j" using assms(1) by simp
  ultimately have "n dvd (t + j) - (t + i)" by (simp only: mod_eq_dvd_iff_nat)
  then have "n dvd j - i" by simp
  moreover have "0 < j - i" using assms(1) by simp
  ultimately show False using assms(2) by (meson nat_dvd_not_less)
qed

lemma map_upt_shift: "0 < n \<Longrightarrow> map f [Suc 0..<n] = map (\<lambda>i. f (Suc i)) [0..<n - 1]"
proof -
  assume "0 < n"
  then obtain m where n: "n = Suc m" by (cases n) simp_all
  have "[Suc 0..<Suc m] = map Suc [0..<m]" by (simp only: map_Suc_upt)
  then show ?thesis by (simp only: n map_map o_def) simp
qed

lemma contents_nat:
  assumes "k \<le> 62" "mask r = 2 ^ k - 1"
  shows "contents r = map (\<lambda>i. buf r ! ((unat (tail r) + i) mod 2 ^ k)) [0..<unat (head r - tail r)]"
proof -
  have "k \<le> 64" using assms(1) by simp
  then show ?thesis unfolding contents_def by (simp only: assms(2) slot_add)
qed

lemma length_contents: "length (contents r) = unat (head r - tail r)"
  by (simp add: contents_def)

lemma unat_succ_diff:
  fixes h t :: uint64
  assumes "unat (h - t) < 2 ^ 62"
  shows "unat (h + 1 - t) = Suc (unat (h - t))"
proof -
  have e: "h + 1 - t = (h - t) + 1" by simp
  have "unat (h - t) + unat (1::uint64) < 2 ^ LENGTH(64)" using assms by simp
  then have "unat ((h - t) + 1) = unat (h - t) + unat (1::uint64)"
    by (rule unat_add_lem[THEN iffD1])
  then show ?thesis by (simp only: e) simp
qed

lemma unat_pred_diff:
  fixes h t :: uint64
  assumes "t \<noteq> h"
  shows "unat (h - (t + 1)) = unat (h - t) - 1"
proof -
  have e: "h - (t + 1) = (h - t) - 1" by simp
  have "h - t \<noteq> 0" using assms by simp
  then have "unat (h - t - 1) = unat (h - t) - 1" by (rule unat_minus_one)
  then show ?thesis by (simp only: e)
qed

lemma head_as_tail_plus: "tail r + of_nat (unat (head r - tail r)) = head r"
  by simp

lemma ring_inv_Push:
  fixes r :: "'a RingBuffer" and v :: 'a
  assumes "ring_inv r" "unat (head r - tail r) < length (buf r)"
  defines "r' \<equiv> r\<lparr>buf := (buf r)[unat (head r AND mask r) := v], head := head r + 1\<rparr>"
  shows "ring_inv r'" and "contents r' = contents r @ [v]"
proof -
  from assms(1) obtain k where k: "k \<le> 62" "length (buf r) = 2 ^ k" "mask r = 2 ^ k - 1"
    and fl: "pushActive r = 0" "popActive r = 0" unfolding ring_inv_def by blast
  let ?len = "unat (head r - tail r)" and ?t = "unat (tail r)"
  have len: "?len < 2 ^ k" using assms(2) k(2) by simp
  have "(2::nat) ^ k \<le> 2 ^ 62" using k(1) by (simp only: power_increasing_iff)
  with len have len62: "?len < 2 ^ 62" by simp
  have suc: "unat (head r' - tail r') = Suc ?len"
    unfolding r'_def using unat_succ_diff[OF len62] by simp
  show "ring_inv r'"
    unfolding ring_inv_def using k fl len suc by (auto simp: r'_def intro!: exI[of _ k])
  have k64: "k \<le> 64" using k(1) by simp
  have hs: "unat (head r AND mask r) = (?t + ?len) mod 2 ^ k"
    using slot_add[OF k64, of "tail r" ?len] by (simp only: k(3) head_as_tail_plus)
  have m': "mask r' = 2 ^ k - 1" using k(3) by (simp add: r'_def)
  have "contents r' = map (\<lambda>i. buf r' ! ((?t + i) mod 2 ^ k)) [0..<Suc ?len]"
    using contents_nat[OF k(1) m'] suc by (simp add: r'_def)
  also have "\<dots> = map (\<lambda>i. buf r' ! ((?t + i) mod 2 ^ k)) [0..<?len] @ [buf r' ! ((?t + ?len) mod 2 ^ k)]"
    by simp
  also have "map (\<lambda>i. buf r' ! ((?t + i) mod 2 ^ k)) [0..<?len]
           = map (\<lambda>i. buf r ! ((?t + i) mod 2 ^ k)) [0..<?len]"
  proof (rule map_cong[OF refl])
    fix i assume "i \<in> set [0..<?len]"
    then have i: "i < ?len" by simp
    then have "?len - i < 2 ^ k" using len by simp
    from mod_slots_distinct[OF i this, of ?t]
    show "buf r' ! ((?t + i) mod 2 ^ k) = buf r ! ((?t + i) mod 2 ^ k)"
      by (simp add: r'_def hs)
  qed
  also have "buf r' ! ((?t + ?len) mod 2 ^ k) = v"
    using k(2) by (simp add: r'_def hs)
  finally show "contents r' = contents r @ [v]"
    by (simp only: contents_nat[OF k(1) k(3)])
qed

lemma ring_inv_Pop:
  assumes "ring_inv r" "tail r < head r"
  defines "r' \<equiv> r\<lparr>tail := tail r + 1\<rparr>"
  shows "ring_inv r'" and "contents r = buf r ! unat (tail r AND mask r) # contents r'"
proof -
  from assms(1) obtain k where k: "k \<le> 62" "length (buf r) = 2 ^ k" "mask r = 2 ^ k - 1"
    and le: "unat (head r - tail r) \<le> 2 ^ k"
    and fl: "pushActive r = 0" "popActive r = 0" unfolding ring_inv_def by blast
  let ?len = "unat (head r - tail r)" and ?t = "unat (tail r)"
  have ne: "tail r \<noteq> head r" using assms(2) by simp
  have pred: "unat (head r' - tail r') = ?len - 1"
    unfolding r'_def using unat_pred_diff[OF ne] by simp
  have pos: "0 < ?len" using ne by (simp add: unat_gt_0)
  show "ring_inv r'"
    unfolding ring_inv_def using k fl le pred by (auto simp: r'_def intro!: exI[of _ k])
  have k64: "k \<le> 64" using k(1) by simp
  have m': "mask r' = 2 ^ k - 1" using k(3) by (simp add: r'_def)
  have sl: "\<And>i. unat ((tail r' + of_nat i) AND mask r') = unat ((tail r + of_nat (Suc i)) AND mask r)"
    by (simp add: r'_def ac_simps)
  have "contents r = map (\<lambda>i. buf r ! unat ((tail r + of_nat i) AND mask r)) (0 # [Suc 0..<?len])"
    unfolding contents_def using pos by (simp only: upt_conv_Cons)
  also have "\<dots> = buf r ! unat (tail r AND mask r)
        # map (\<lambda>i. buf r ! unat ((tail r + of_nat (Suc i)) AND mask r)) [0..<?len - 1]"
  proof -
    let ?f = "\<lambda>i. buf r ! unat ((tail r + of_nat i) AND mask r)"
    have "map ?f [Suc 0..<?len] = map (\<lambda>i. ?f (Suc i)) [0..<?len - 1]"
      by (rule map_upt_shift[OF pos])
    moreover have "?f 0 = buf r ! unat (tail r AND mask r)" by simp
    ultimately show ?thesis by (simp only: list.map)
  qed
  also have "map (\<lambda>i. buf r ! unat ((tail r + of_nat (Suc i)) AND mask r)) [0..<?len - 1] = contents r'"
    unfolding contents_def[of r'] by (simp only: sl pred) (simp add: r'_def)
  finally show "contents r = buf r ! unat (tail r AND mask r) # contents r'" .
qed

subsection \<open>Sequential runs\<close>

lemma pushed_Cons: "pushed (c # cs) (oc # ocs) = pushed [c] [oc] @ pushed cs ocs"
  by (induction "c # cs" "oc # ocs" rule: pushed.induct) auto

lemma popped_Cons: "popped (oc # ocs) = popped [oc] @ popped ocs"
  by (induction "oc # ocs" rule: popped.induct) auto

lemma call_RingBuffer_inv:
  assumes "ring_inv r" "call_RingBuffer r c = (oc, r')"
  shows "ring_inv r' \<and> \<not> is_panic oc
       \<and> contents r @ pushed [c] [oc] = popped [oc] @ contents r'
       \<and> head r' = head r + of_nat (length (pushed [c] [oc]))
       \<and> tail r' = tail r + of_nat (length (popped [oc]))
       \<and> length (buf r') = length (buf r) \<and> mask r' = mask r"
proof -
  from assms(1) obtain k where k: "k \<le> 62" "length (buf r) = 2 ^ k" "mask r = 2 ^ k - 1"
    and le: "unat (head r - tail r) \<le> 2 ^ k"
    and fl: "pushActive r = 0" "popActive r = 0" unfolding ring_inv_def by blast
  show ?thesis
  proof (cases c)
    case (CallPush v)
    show ?thesis
    proof (cases "unat (head r - tail r) < length (buf r)")
      case True
      from Push_ok[OF assms(1) True, of v] assms(2) CallPush
      have oc: "oc = PushReturned True"
        and r': "r' = r\<lparr>buf := (buf r)[unat (head r AND mask r) := v], head := head r + 1\<rparr>"
        by simp_all
      from ring_inv_Push[OF assms(1) True, of v] show ?thesis
        by (simp add: oc r' CallPush)
    next
      case False
      then have "2 ^ k \<le> unat (head r - tail r)" using k(2) by simp
      then have "of_nat (length (buf r)) \<le> head r - tail r"
        by (simp only: ring_inv_full_iff[OF k(1,2)])
      from Push_full[OF fl(1) this, of v] assms(2) CallPush
      have "oc = PushReturned False" "r' = r" by simp_all
      then show ?thesis using assms(1) by (simp add: CallPush)
    qed
  next
    case CallPop
    show ?thesis
    proof (cases "tail r < head r")
      case True
      from Pop_ok[OF assms(1) True] assms(2) CallPop
      have oc: "oc = PopReturned (buf r ! unat (tail r AND mask r)) True"
        and r': "r' = r\<lparr>tail := tail r + 1\<rparr>"
        by simp_all
      from ring_inv_Pop[OF assms(1) True] show ?thesis
        by (simp add: oc r' CallPop)
    next
      case False
      then have "head r \<le> tail r" by simp
      from Pop_empty[OF fl(2) this] assms(2) CallPop
      have "oc = PopReturned 0 False" "r' = r" by simp_all
      then show ?thesis using assms(1) by (simp add: CallPop)
    qed
  qed
qed

lemma run_inv:
  "ring_inv r \<Longrightarrow> run r cs = (ocs, r') \<Longrightarrow>
     ring_inv r' \<and> (\<forall>oc\<in>set ocs. \<not> is_panic oc) \<and> length ocs = length cs
       \<and> contents r @ pushed cs ocs = popped ocs @ contents r'
       \<and> head r' = head r + of_nat (length (pushed cs ocs))
       \<and> tail r' = tail r + of_nat (length (popped ocs))
       \<and> length (buf r') = length (buf r) \<and> mask r' = mask r"
proof (induction cs arbitrary: r ocs r')
  case Nil
  then show ?case by simp
next
  case (Cons c cs)
  obtain oc r1 where c1: "call_RingBuffer r c = (oc, r1)" by (cases "call_RingBuffer r c")
  obtain ocs1 r2 where c2: "run r1 cs = (ocs1, r2)" by (cases "run r1 cs")
  from Cons.prems(2) c1 c2 have eq: "ocs = oc # ocs1" "r' = r2" by simp_all
  note s1 = call_RingBuffer_inv[OF Cons.prems(1) c1]
  from s1 have inv1: "ring_inv r1" by simp
  note s2 = Cons.IH[OF inv1 c2]
  have "contents r @ pushed (c # cs) (oc # ocs1) = (contents r @ pushed [c] [oc]) @ pushed cs ocs1"
    by (simp only: pushed_Cons[of c cs oc ocs1] append_assoc)
  also have "\<dots> = popped [oc] @ (contents r1 @ pushed cs ocs1)" using s1 by simp
  also have "\<dots> = popped [oc] @ popped ocs1 @ contents r2" using s2 by simp
  also have "\<dots> = popped (oc # ocs1) @ contents r2"
    by (simp only: popped_Cons[of oc ocs1] append_assoc)
  finally have cont: "contents r @ pushed (c # cs) (oc # ocs1) = popped (oc # ocs1) @ contents r2" .
  have hd: "head r2 = head r + of_nat (length (pushed (c # cs) (oc # ocs1)))"
    using s1 s2 by (simp add: pushed_Cons[of c cs oc ocs1])
  have tl: "tail r2 = tail r + of_nat (length (popped (oc # ocs1)))"
    using s1 s2 by (simp add: popped_Cons[of oc ocs1])
  show ?case using s1 s2 cont hd tl by (simp add: eq)
qed

subsection \<open>What the constructor returns\<close>

lemma make_slice_pow:
  assumes "m \<le> 63"
  shows "(make_slice esz (2 ^ m) :: panic + ('a::zero) list) =
           (if maxAlloc < esz * 2 ^ m \<or> m = 63 then Inl MakesliceLenOutOfRange
            else Inr (replicate (2 ^ m) 0))"
proof -
  have m: "m < 64" using assms by simp
  have "sint ((2::uint64) ^ m) < 0 \<longleftrightarrow> (2::nat) ^ 63 \<le> 2 ^ m"
    by (simp only: sint64_neg unat_pow64[OF m])
  also have "\<dots> \<longleftrightarrow> 63 \<le> m" by (simp only: power_increasing_iff) 
  also have "\<dots> \<longleftrightarrow> m = 63" using assms by auto
  finally have neg: "sint ((2::uint64) ^ m) < 0 \<longleftrightarrow> m = 63" .
  have "maxAlloc < (2::nat) ^ 64" by (simp add: maxAlloc_def)
  then have ov: "(2::nat) ^ 64 \<le> esz * 2 ^ m \<Longrightarrow> maxAlloc < esz * 2 ^ m"
    by (rule less_le_trans)
  show ?thesis
    unfolding make_slice_def Let_def unat_pow64[OF m] neg using ov by auto
qed

lemma NewRingBuffer_small:
  assumes "sz \<le> 2 ^ 63"
  shows "\<exists>m\<le>63. sz \<le> 2 ^ m \<and> (\<forall>j<m. (2::uint64) ^ j < sz) \<and>
           (NewRingBuffer esz sz :: (panic + ('a::zero) RingBuffer) option) =
             Some (if maxAlloc < esz * 2 ^ m \<or> m = 63 then Inl MakesliceLenOutOfRange
                   else Inr \<lparr>buf = replicate (2 ^ m) 0, mask = 2 ^ m - 1, head = 0, tail = 0,
                              pushActive = 0, popActive = 0\<rparr>)"
proof -
  from round_up_loop_total[OF assms] obtain m where m: "m \<le> 63"
    "round_up_loop 1 sz = Some (2 ^ m)" "sz \<le> 2 ^ m" "\<forall>j<m. (2::uint64) ^ j < sz" by blast
  have "(NewRingBuffer esz sz :: (panic + 'a RingBuffer) option) =
             Some (if maxAlloc < esz * 2 ^ m \<or> m = 63 then Inl MakesliceLenOutOfRange
                   else Inr \<lparr>buf = replicate (2 ^ m) 0, mask = 2 ^ m - 1, head = 0, tail = 0,
                              pushActive = 0, popActive = 0\<rparr>)"
    unfolding NewRingBuffer_def by (simp only: m(2) make_slice_pow[OF m(1)] option.case) simp
  with m show ?thesis by blast
qed

lemma NewRingBuffer_big: "2 ^ 63 < sz \<Longrightarrow> NewRingBuffer esz sz = None"
  unfolding NewRingBuffer_def by (simp only: round_up_loop_diverges option.case)

lemma NewRingBuffer_Inr:
  assumes "NewRingBuffer esz sz = Some (Inr r)"
  shows "\<exists>m\<le>62. sz \<le> 2 ^ m \<and> (\<forall>j<m. (2::uint64) ^ j < sz) \<and>
           r = \<lparr>buf = replicate (2 ^ m) 0, mask = 2 ^ m - 1, head = 0, tail = 0,
                 pushActive = 0, popActive = 0\<rparr>"
proof (cases "sz \<le> 2 ^ 63")
  case True
  from NewRingBuffer_small[OF True, where 'a = 'a and esz = esz] obtain m where m: "m \<le> 63"
    "sz \<le> 2 ^ m" "\<forall>j<m. (2::uint64) ^ j < sz"
    "(NewRingBuffer esz sz :: (panic + 'a RingBuffer) option) =
             Some (if maxAlloc < esz * 2 ^ m \<or> m = 63 then Inl MakesliceLenOutOfRange
                   else Inr \<lparr>buf = replicate (2 ^ m) 0, mask = 2 ^ m - 1, head = 0, tail = 0,
                              pushActive = 0, popActive = 0\<rparr>)" by blast
  from m(4) assms have ok: "\<not> (maxAlloc < esz * 2 ^ m \<or> m = 63)" by (auto split: if_splits)
  with m(1) have "m \<le> 62" by simp
  moreover from m(4) assms ok
  have "r = \<lparr>buf = replicate (2 ^ m) 0, mask = 2 ^ m - 1, head = 0, tail = 0,
                 pushActive = 0, popActive = 0\<rparr>" by (simp split: if_splits)
  ultimately show ?thesis using m(2,3) by blast
next
  case False
  then have "2 ^ 63 < sz" by simp
  from NewRingBuffer_big[OF this, where 'a = 'a and esz = esz] assms show ?thesis by simp
qed

lemma NewRingBuffer_fresh:
  assumes "NewRingBuffer esz sz = Some (Inr r)"
  shows "ring_inv r" "contents r = []" "head r = 0" "tail r = 0" "length (buf r) \<noteq> 0"
proof -
  from NewRingBuffer_Inr[OF assms] obtain m where m: "m \<le> 62"
    and r: "r = \<lparr>buf = replicate (2 ^ m) 0, mask = 2 ^ m - 1, head = 0, tail = 0,
                 pushActive = 0, popActive = 0\<rparr>" by blast
  show "ring_inv r" unfolding ring_inv_def using m by (auto simp: r)
  show "contents r = []" by (simp add: contents_def r)
  show "head r = 0" "tail r = 0" "length (buf r) \<noteq> 0" by (simp_all add: r)
qed

subsection \<open>Evaluations on a ring of two slots\<close>

lemma NewRingBuffer_two:
  "(NewRingBuffer 8 2 :: (panic + ('a::zero) RingBuffer) option) =
     Some (Inr \<lparr>buf = [0, 0], mask = 1, head = 0, tail = 0, pushActive = 0, popActive = 0\<rparr>)"
proof -
  have "round_up_loop 1 2 = Some 2" by (simp add: round_up_loop.simps)
  moreover have "(replicate 2 0 :: 'a list) = [0, 0]" by (simp add: numeral_2_eq_2)
  then have "(make_slice 8 2 :: panic + 'a list) = Inr [0, 0]"
    by (simp add: make_slice_def maxAlloc_def)
  ultimately show ?thesis by (simp add: NewRingBuffer_def)
qed

lemma run_two:
  "run \<lparr>buf = [0, 0::int], mask = 1, head = 0, tail = 0, pushActive = 0, popActive = 0\<rparr>
       [CallPush 10, CallPush 20, CallPush 30, CallPop, CallPush 40]
   = ([PushReturned True, PushReturned True, PushReturned False, PopReturned 10 True,
       PushReturned True],
      \<lparr>buf = [40, 20], mask = 1, head = 3, tail = 1, pushActive = 0, popActive = 0\<rparr>)"
  by code_simp

subsection \<open>Guarded against unguarded\<close>

lemma Push_flags:
  "pushActive r = 0 \<Longrightarrow> pushActive (snd (Push r v)) = 0"
  "popActive (snd (Push r v)) = popActive r"
  by (simp_all add: Push_def Let_def)

lemma Pop_flags:
  "popActive r = 0 \<Longrightarrow> popActive (snd (Pop r)) = 0"
  "pushActive (snd (Pop r)) = pushActive r"
  by (simp_all add: Pop_def Let_def)

lemma spscRing_Push_unguarded:
  "pushActive r = 0 \<Longrightarrow>
     spscRing_Push (unguarded r) v = (fst (Push r v), unguarded (snd (Push r v)))"
  by (simp add: spscRing_Push_def Push_def unguarded_def Let_def)

lemma spscRing_Pop_unguarded:
  "popActive r = 0 \<Longrightarrow>
     spscRing_Pop (unguarded r) = (fst (Pop r), unguarded (snd (Pop r)))"
  by (simp add: spscRing_Pop_def Pop_def unguarded_def Let_def)

lemma call_unguarded:
  assumes "pushActive r = 0" "popActive r = 0"
  shows "call_spscRing (unguarded r) c
           = (fst (call_RingBuffer r c), unguarded (snd (call_RingBuffer r c)))"
    and "pushActive (snd (call_RingBuffer r c)) = 0"
    and "popActive (snd (call_RingBuffer r c)) = 0"
proof -
  show "call_spscRing (unguarded r) c
           = (fst (call_RingBuffer r c), unguarded (snd (call_RingBuffer r c)))"
  proof (cases c)
    case (CallPush v)
    then show ?thesis
      using spscRing_Push_unguarded[OF assms(1), of v]
      by (cases "Push r v") (auto split: sum.splits)
  next
    case CallPop
    then show ?thesis
      using spscRing_Pop_unguarded[OF assms(2)]
      by (cases "Pop r") (auto split: sum.splits prod.splits)
  qed
  show "pushActive (snd (call_RingBuffer r c)) = 0"
  proof (cases c)
    case (CallPush v)
    then show ?thesis using Push_flags(1)[OF assms(1), of v]
      by (cases "Push r v") (auto split: sum.splits)
  next
    case CallPop
    then show ?thesis using Pop_flags(2)[of r] assms(1)
      by (cases "Pop r") (auto split: sum.splits prod.splits)
  qed
  show "popActive (snd (call_RingBuffer r c)) = 0"
  proof (cases c)
    case (CallPush v)
    then show ?thesis using Push_flags(2)[of r v] assms(2)
      by (cases "Push r v") (auto split: sum.splits)
  next
    case CallPop
    then show ?thesis using Pop_flags(1)[OF assms(2)]
      by (cases "Pop r") (auto split: sum.splits prod.splits)
  qed
qed

lemma run_unguarded:
  "pushActive r = 0 \<Longrightarrow> popActive r = 0 \<Longrightarrow>
     run_spscRing (unguarded r) cs = (fst (run r cs), unguarded (snd (run r cs)))
     \<and> pushActive (snd (run r cs)) = 0 \<and> popActive (snd (run r cs)) = 0"
proof (induction cs arbitrary: r)
  case Nil
  then show ?case by simp
next
  case (Cons c cs)
  obtain oc r1 where c1: "call_RingBuffer r c = (oc, r1)" by (cases "call_RingBuffer r c")
  from call_unguarded[OF Cons.prems, of c] c1
  have s: "call_spscRing (unguarded r) c = (oc, unguarded r1)"
    and f: "pushActive r1 = 0" "popActive r1 = 0" by simp_all
  obtain ocs r2 where c2: "run r1 cs = (ocs, r2)" by (cases "run r1 cs")
  from Cons.IH[OF f] show ?case
    by (simp add: c1 c2 s)
qed

lemma newSPSCRing_unguarded:
  "newSPSCRing sz = map_option (map_sum id unguarded) (NewRingBuffer 8 sz)"
  by (simp add: newSPSCRing_def NewRingBuffer_def unguarded_def split: option.splits sum.splits)

subsection \<open>Signed readings\<close>

lemma sint64_nonneg: "0 \<le> sint (x::uint64) \<longleftrightarrow> unat x < 2 ^ 63"
proof -
  have "0 \<le> sint x \<longleftrightarrow> \<not> sint x < 0" by (rule not_less[symmetric])
  also have "\<dots> \<longleftrightarrow> \<not> 2 ^ 63 \<le> unat x" by (simp only: sint64_neg)
  also have "\<dots> \<longleftrightarrow> unat x < 2 ^ 63" by (rule not_le)
  finally show ?thesis .
qed

lemma unat_2p63: "unat ((2::uint64) ^ 63) = 2 ^ 63"
  by (rule unat_pow64) simp

subsection \<open>Runs of Pushes\<close>

lemma run_append:
  "run r (xs @ ys) =
     (case run r xs of (o1, r1) \<Rightarrow> (case run r1 ys of (o2, r2) \<Rightarrow> (o1 @ o2, r2)))"
  by (induction xs arbitrary: r) (simp_all split: prod.splits)

lemma ring_inv_full:
  assumes "ring_inv r"
  shows "of_nat (length (buf r)) \<le> head r - tail r \<longleftrightarrow> length (buf r) \<le> unat (head r - tail r)"
proof -
  from assms obtain k where k: "k \<le> 62" "length (buf r) = 2 ^ k"
    unfolding ring_inv_def by blast
  from ring_inv_full_iff[OF k] show ?thesis by (simp only: k(2))
qed

lemma call_Push_ok:
  assumes "ring_inv r" "unat (head r - tail r) < length (buf r)"
  shows "\<exists>r1. call_RingBuffer r (CallPush v) = (PushReturned True, r1) \<and> ring_inv r1
           \<and> unat (head r1 - tail r1) = Suc (unat (head r - tail r))
           \<and> length (buf r1) = length (buf r) \<and> contents r1 = contents r @ [v]"
proof -
  let ?r1 = "r\<lparr>buf := (buf r)[unat (head r AND mask r) := v], head := head r + 1\<rparr>"
  note p = ring_inv_Push[OF assms, of v]
  have "length (contents ?r1) = Suc (length (contents r))" by (simp only: p(2)) simp
  then have "unat (head ?r1 - tail ?r1) = Suc (unat (head r - tail r))"
    by (simp only: length_contents)
  moreover have "call_RingBuffer r (CallPush v) = (PushReturned True, ?r1)"
    by (simp add: Push_ok[OF assms])
  moreover have "length (buf ?r1) = length (buf r)" by simp
  ultimately show ?thesis using p by blast
qed

lemma call_Push_full:
  assumes "ring_inv r" "unat (head r - tail r) = length (buf r)"
  shows "call_RingBuffer r (CallPush v) = (PushReturned False, r)"
proof -
  have "of_nat (length (buf r)) \<le> head r - tail r"
    using assms(2) by (simp only: ring_inv_full[OF assms(1)]) 
  moreover have "pushActive r = 0" using assms(1) unfolding ring_inv_def by simp
  ultimately show ?thesis by (simp add: Push_full)
qed

lemma pushes_all_true:
  "ring_inv r \<Longrightarrow> unat (head r - tail r) + length vs \<le> length (buf r) \<Longrightarrow>
     fst (run r (map CallPush vs)) = replicate (length vs) (PushReturned True)"
proof (induction vs arbitrary: r)
  case Nil
  then show ?case by simp
next
  case (Cons v vs)
  from Cons.prems(2) have "unat (head r - tail r) < length (buf r)" by simp
  from call_Push_ok[OF Cons.prems(1) this, of v] obtain r1 where
    r1: "call_RingBuffer r (CallPush v) = (PushReturned True, r1)" "ring_inv r1"
      "unat (head r1 - tail r1) = Suc (unat (head r - tail r))"
      "length (buf r1) = length (buf r)" by blast
  have "unat (head r1 - tail r1) + length vs \<le> length (buf r1)"
    using Cons.prems(2) r1(3,4) by simp
  from Cons.IH[OF r1(2) this] show ?case
    by (cases "run r1 (map CallPush vs)") (simp add: r1(1) del: call_RingBuffer.simps)
qed

lemma pushes_all_false:
  "ring_inv r \<Longrightarrow> unat (head r - tail r) = length (buf r) \<Longrightarrow>
     run r (map CallPush ws) = (replicate (length ws) (PushReturned False), r)"
proof (induction ws)
  case Nil
  then show ?case by simp
next
  case (Cons w ws)
  from call_Push_full[OF Cons.prems, of w] Cons.IH[OF Cons.prems] show ?case
    by (simp del: call_RingBuffer.simps)
qed

lemma pushed_all_true:
  "pushed (map CallPush vs) (replicate (length vs) (PushReturned True)) = vs"
  by (induction vs) simp_all

lemma popped_Push_only: "popped (replicate n (PushReturned b)) = []"
  by (induction n) simp_all

lemma fill_then_refuse:
  assumes "NewRingBuffer esz sz = Some (Inr r)" "length vs = length (buf r)"
  shows "fst (run r (map CallPush vs @ map CallPush ws @ [CallPop, CallPush v]))
           = replicate (length vs) (PushReturned True) @ replicate (length ws) (PushReturned False)
               @ [PopReturned (hd vs) True, PushReturned True]"
proof -
  note fresh = NewRingBuffer_fresh[OF assms(1)]
  have e0: "unat (head r - tail r) = 0" by (simp add: fresh)
  obtain o1 r1 where run1: "run r (map CallPush vs) = (o1, r1)" by (cases "run r (map CallPush vs)")
  from pushes_all_true[OF fresh(1), of vs] assms(2) e0 run1
  have o1: "o1 = replicate (length vs) (PushReturned True)" by simp
  note i1 = run_inv[OF fresh(1) run1]
  from i1 have inv1: "ring_inv r1" and len1: "length (buf r1) = length (buf r)"
    and t1: "tail r1 = 0" by (simp_all add: fresh o1 popped_Push_only)
  from i1 have c1: "contents r1 = vs"
    by (simp add: fresh o1 popped_Push_only pushed_all_true)
  have full1: "unat (head r1 - tail r1) = length (buf r1)"
    using c1 assms(2) len1 length_contents[of r1] by simp
  have run2: "run r1 (map CallPush ws) = (replicate (length ws) (PushReturned False), r1)"
    by (rule pushes_all_false[OF inv1 full1])
  have "unat (head r1 - tail r1) \<noteq> 0" using full1 len1 fresh(5) by simp
  then have "head r1 \<noteq> 0" by (auto simp: t1)
  then have lt: "tail r1 < head r1" by (simp add: t1 word_neq_0_conv)
  let ?r2 = "r1\<lparr>tail := tail r1 + 1\<rparr>"
  note p = ring_inv_Pop[OF inv1 lt]
  from p(2) c1 have x: "buf r1 ! unat (tail r1 AND mask r1) = hd vs"
    and c2: "contents ?r2 = tl vs" by (cases vs; simp)+
  have vs: "vs \<noteq> []" using assms(2) fresh(5) by auto
  have pop: "call_RingBuffer r1 CallPop = (PopReturned (hd vs) True, ?r2)"
    by (simp add: Pop_ok[OF inv1 lt] x)
  have "length (contents ?r2) < length vs" using vs by (simp only: c2) simp
  then have "unat (head ?r2 - tail ?r2) < length (buf ?r2)"
    using assms(2) len1 by (simp only: length_contents) simp
  from call_Push_ok[OF p(1) this, of v] obtain r3 where
    push: "call_RingBuffer ?r2 (CallPush v) = (PushReturned True, r3)" by blast
  show ?thesis
    by (simp add: run_append run1 o1 run2 pop push del: call_RingBuffer.simps)
qed

subsection \<open>Sizes the constructor accepts\<close>











subsection \<open>A ring of one slot, cycled until head wraps\<close>

lemma word64_less_succ: "(h::uint64) + 1 \<noteq> 0 \<Longrightarrow> h < h + 1"
proof -
  assume "h + 1 \<noteq> 0"
  then have "1 + h \<noteq> 0" by (simp add: ac_simps)
  then have "unat (1 + h) = Suc (unat h)" by (rule unatSuc)
  then have "unat (h + 1) = Suc (unat h)" by (simp add: ac_simps)
  then show ?thesis by (simp only: word_less_nat_alt)
qed

lemma unat_succ64:
  fixes h :: uint64
  assumes "Suc (unat h) < 2 ^ 64"
  shows "unat (h + 1) = Suc (unat h)" and "h + 1 \<noteq> 0"
proof -
  have "unat h + unat (1::uint64) < 2 ^ LENGTH(64)" using assms by simp
  then have "unat (h + 1) = unat h + unat (1::uint64)" by (rule unat_add_lem[THEN iffD1])
  then show u: "unat (h + 1) = Suc (unat h)" by simp
  show "h + 1 \<noteq> 0"
  proof
    assume "h + 1 = 0"
    then have "unat (h + 1) = 0" by simp
    with u show False by simp
  qed
qed

lemma cycle_once:
  fixes b v :: "'a::zero"
  assumes "h + 1 \<noteq> 0"
  shows "run \<lparr>buf = [b], mask = 0, head = h, tail = h, pushActive = 0, popActive = 0\<rparr>
           [CallPush v, CallPop]
         = ([PushReturned True, PopReturned v True],
            \<lparr>buf = [v], mask = 0, head = h + 1, tail = h + 1, pushActive = 0, popActive = 0\<rparr>)"
proof -
  have "\<not> h + 1 \<le> h" using word64_less_succ[OF assms] by simp
  then show ?thesis by (simp add: Push_def Pop_def Let_def)
qed

lemma cycles:
  fixes b v :: "'a::zero"
  shows "unat h + n < 2 ^ 64 \<Longrightarrow>
     snd (run \<lparr>buf = [b], mask = 0, head = h, tail = h, pushActive = 0, popActive = 0\<rparr>
            (concat (replicate n [CallPush v, CallPop])))
       = \<lparr>buf = [if n = 0 then b else v], mask = 0, head = h + of_nat n, tail = h + of_nat n,
           pushActive = 0, popActive = 0\<rparr>"
proof (induction n arbitrary: h b)
  case 0
  then show ?case by simp
next
  case (Suc n)
  let ?cyc = "[CallPush v, CallPop]"
  let ?r1 = "\<lparr>buf = [v], mask = 0, head = h + 1, tail = h + 1, pushActive = 0, popActive = 0\<rparr>"
  have "Suc (unat h) < 2 ^ 64" using Suc.prems by simp
  note s = unat_succ64[OF this]
  note once = cycle_once[OF s(2), of b v]
  have "unat (h + 1) + n < 2 ^ 64" using Suc.prems by (simp add: s(1))
  note ih = Suc.IH[OF this, of v]
  obtain ocs r2 where run2: "run ?r1 (concat (replicate n ?cyc)) = (ocs, r2)"
    by (cases "run ?r1 (concat (replicate n ?cyc))")
  from ih run2 have r2: "r2 = \<lparr>buf = [v], mask = 0, head = h + 1 + of_nat n,
      tail = h + 1 + of_nat n, pushActive = 0, popActive = 0\<rparr>"
    by (simp only: snd_conv if_cancel)
  have c: "concat (replicate (Suc n) ?cyc) = ?cyc @ concat (replicate n ?cyc)" by simp
  have "snd (run \<lparr>buf = [b], mask = 0, head = h, tail = h, pushActive = 0, popActive = 0\<rparr>
            (concat (replicate (Suc n) ?cyc))) = r2"
    unfolding c run_append once by (simp only: prod.case run2 snd_conv)
  then show ?case by (simp add: r2 ac_simps)
qed

lemma head_wraps:
  "snd (run \<lparr>buf = [0::int], mask = 0, head = 0, tail = 0, pushActive = 0, popActive = 0\<rparr>
          (concat (replicate (2 ^ 64 - 1) [CallPush 7, CallPop]) @ [CallPush 7]))
    = \<lparr>buf = [7], mask = 0, head = 0, tail = - 1, pushActive = 0, popActive = 0\<rparr>"
proof -
  let ?n = "2 ^ 64 - 1 :: nat"
  let ?r0 = "\<lparr>buf = [0::int], mask = 0, head = 0, tail = 0, pushActive = 0, popActive = 0\<rparr>"
  let ?cyc = "[CallPush (7::int), CallPop]"
  have lt: "unat (0::uint64) + ?n < 2 ^ 64" by simp
  have m1: "(0::uint64) + of_nat ?n = - 1" by simp
  have ne: "?n \<noteq> 0" by simp
  note c = cycles[OF lt, of "0::int" 7, unfolded m1]
  have p: "Push \<lparr>buf = [7::int], mask = 0, head = - 1, tail = - 1, pushActive = 0, popActive = 0\<rparr> 7
       = (Inr True, \<lparr>buf = [7], mask = 0, head = 0, tail = - 1, pushActive = 0, popActive = 0\<rparr>)"
    by (simp add: Push_def Let_def)
  obtain ocs r' where run: "run ?r0 (concat (replicate ?n ?cyc)) = (ocs, r')"
    by (cases "run ?r0 (concat (replicate ?n ?cyc))")
  from c run ne have r': "r' = \<lparr>buf = [7], mask = 0, head = - 1, tail = - 1, pushActive = 0, popActive = 0\<rparr>"
    by (simp only: snd_conv if_False)
  have "snd (run ?r0 (concat (replicate ?n ?cyc) @ [CallPush 7]))
          = snd (call_RingBuffer r' (CallPush 7))"
    unfolding run_append run by (simp split: prod.splits)
  then show ?thesis by (simp only: r' call_RingBuffer.simps p) simp
qed

subsection \<open>Cursors of a reachable ring\<close>

lemma NewRingBuffer_one:
  "(NewRingBuffer 8 1 :: (panic + ('a::zero) RingBuffer) option) =
     Some (Inr \<lparr>buf = [0], mask = 0, head = 0, tail = 0, pushActive = 0, popActive = 0\<rparr>)"
proof -
  have "round_up_loop 1 1 = Some 1" by (simp add: round_up_loop.simps)
  moreover have "(make_slice 8 1 :: panic + 'a list) = Inr [0]"
    by (simp add: make_slice_def maxAlloc_def)
  ultimately show ?thesis by (simp add: NewRingBuffer_def)
qed

lemma unat_of_nat64: "n < 2 ^ 64 \<Longrightarrow> unat (of_nat n :: uint64) = n"
proof -
  assume a: "n < 2 ^ 64"
  have "unat (of_nat n :: uint64) = n mod 2 ^ 64" by (simp only: unat_of_nat) simp
  also have "\<dots> = n" using a by (rule mod_less)
  finally show ?thesis .
qed

lemma ring_inv_occupied:
  assumes "ring_inv r"
  shows "head r - tail r \<le> of_nat (length (buf r))"
    and "Len r = int (length (contents r))"
    and "0 \<le> Len r" and "Len r \<le> Cap r"
proof -
  from assms obtain k where k: "k \<le> 62" "length (buf r) = 2 ^ k"
    and le: "unat (head r - tail r) \<le> 2 ^ k" unfolding ring_inv_def by blast
  have k64: "k < 64" using k(1) by simp
  show "head r - tail r \<le> of_nat (length (buf r))"
    using le by (simp only: k(2) of_nat_pow64 word_le_nat_alt unat_pow64[OF k64])
  have "(2::nat) ^ k \<le> 2 ^ 62" using k(1) by (simp only: power_increasing_iff)
  also have "\<dots> < 2 ^ 63" by simp
  finally have "unat (head r - tail r) < 2 ^ 63" using le by simp
  then have "sint (head r - tail r) = int (unat (head r - tail r))" by (rule sint64_small)
  then show l: "Len r = int (length (contents r))" by (simp only: Len_def length_contents)
  show "0 \<le> Len r" by (simp add: l)
  have "length (contents r) \<le> length (buf r)" using le by (simp only: length_contents k(2))
  then show "Len r \<le> Cap r" by (simp only: l Cap_def of_nat_le_iff)
qed

lemma cursors_ordered:
  assumes "q \<le> p" "p < 2 ^ 64"
  shows "(of_nat q :: uint64) \<le> of_nat p"
proof -
  have "q < 2 ^ 64" using assms by simp
  then show ?thesis using assms(1)
    by (simp only: word_le_nat_alt unat_of_nat64[OF assms(2)] unat_of_nat64)
qed

text \<open>The state of the one-slot ring once \<open>head\<close> has wrapped to 0 while \<open>tail\<close> is still
  \<open>2^64 - 1\<close>: one value is queued, yet Pop reports an empty ring (its test is
  \<open>tail \<ge> head\<close>) and Push reports a full one (its test is \<open>head - tail \<ge> len(buf)\<close>).\<close>

lemma Pop_refuses_after_wrap:
  "fst (Pop \<lparr>buf = [7::int], mask = 0, head = 0, tail = - 1, pushActive = 0, popActive = 0\<rparr>)
     = Inr (0, False)
   \<and> Len \<lparr>buf = [7::int], mask = 0, head = 0, tail = - 1, pushActive = 0, popActive = 0\<rparr> = 1
   \<and> fst (Push \<lparr>buf = [7::int], mask = 0, head = 0, tail = - 1, pushActive = 0, popActive = 0\<rparr> 8)
     = Inr False"
  by (simp add: Pop_def Push_def Len_def Let_def)

section \<open>The claims\<close>

subsection \<open>FIFO order\<close>

text \<open>
  Claim C1. Take a ring returned by \<open>NewRingBuffer\<close> and any sequence of Push and Pop calls
  made one after the other. The values whose Push returned true are, in call order, exactly
  the values returned by the Pops that returned true followed by the values still queued:
  the successful Pops return an initial segment of the pushed values, in the order pushed,
  with nothing reordered, repeated or skipped. Whenever a Pop succeeds, the value it returns
  is the one in the slot \<open>tail AND mask\<close>, which is the oldest queued value.
\<close>

theorem fifo_order:
  assumes "NewRingBuffer esz sz = Some (Inr r)"
  shows "pushed cs (fst (run r cs)) = popped (fst (run r cs)) @ contents (snd (run r cs))
       \<and> take (length (popped (fst (run r cs)))) (pushed cs (fst (run r cs))) = popped (fst (run r cs))
       \<and> (\<forall>v r''. Pop (snd (run r cs)) = (Inr (v, True), r'') \<longrightarrow>
             v = buf (snd (run r cs)) ! unat (tail (snd (run r cs)) AND mask (snd (run r cs)))
             \<and> contents (snd (run r cs)) = v # contents r'')"
proof -
  obtain ocs r' where run: "run r cs = (ocs, r')" by (cases "run r cs")
  note fresh = NewRingBuffer_fresh[OF assms]
  from run_inv[OF fresh(1) run] have inv: "ring_inv r'"
    and q: "contents r @ pushed cs ocs = popped ocs @ contents r'" by simp_all
  from q have eq: "pushed cs ocs = popped ocs @ contents r'" by (simp add: fresh(2))
  then have pre: "take (length (popped ocs)) (pushed cs ocs) = popped ocs" by simp
  have "\<forall>v r''. Pop r' = (Inr (v, True), r'') \<longrightarrow>
          v = buf r' ! unat (tail r' AND mask r') \<and> contents r' = v # contents r''"
  proof (intro allI impI)
    fix v r'' assume p: "Pop r' = (Inr (v, True), r'')"
    have lt: "tail r' < head r'"
    proof (rule ccontr)
      assume "\<not> tail r' < head r'"
      then have "head r' \<le> tail r'" by simp
      moreover have "popActive r' = 0" using inv unfolding ring_inv_def by simp
      ultimately have "Pop r' = (Inr (0, False), r')" by (intro Pop_empty)
      with p show False by simp
    qed
    from Pop_ok[OF inv lt] p have "v = buf r' ! unat (tail r' AND mask r')"
      and "r'' = r'\<lparr>tail := tail r' + 1\<rparr>" by simp_all
    with ring_inv_Pop(2)[OF inv lt]
    show "v = buf r' ! unat (tail r' AND mask r') \<and> contents r' = v # contents r''" by simp
  qed
  with eq pre show ?thesis by (simp add: run)
qed

text \<open>An instance: a ring of two slots, three Pushes (the third is refused), a Pop and a
  fourth Push; then one more Pop.\<close>

theorem fifo_order_witness:
  "(NewRingBuffer 8 2 :: (panic + int RingBuffer) option) =
     Some (Inr \<lparr>buf = [0, 0], mask = 1, head = 0, tail = 0, pushActive = 0, popActive = 0\<rparr>)
   \<and> pushed [CallPush 10, CallPush 20, CallPush 30, CallPop, CallPush 40]
        [PushReturned True, PushReturned True, PushReturned False, PopReturned 10 True,
         PushReturned True] = [10, 20, 40 :: int]
   \<and> popped [PushReturned True, PushReturned True, PushReturned False, PopReturned 10 True,
         PushReturned True] = [10 :: int]
   \<and> contents \<lparr>buf = [40, 20 :: int], mask = 1, head = 3, tail = 1, pushActive = 0, popActive = 0\<rparr>
       = [20, 40]
   \<and> Pop \<lparr>buf = [40, 20 :: int], mask = 1, head = 3, tail = 1, pushActive = 0, popActive = 0\<rparr>
       = (Inr (20, True),
          \<lparr>buf = [40, 20], mask = 1, head = 3, tail = 2, pushActive = 0, popActive = 0\<rparr>)
   \<and> contents \<lparr>buf = [40, 20 :: int], mask = 1, head = 3, tail = 2, pushActive = 0, popActive = 0\<rparr>
       = [40]"
proof -
  let ?r = "\<lparr>buf = [0, 0::int], mask = 1, head = 0, tail = 0, pushActive = 0, popActive = 0\<rparr>"
  let ?cs = "[CallPush 10, CallPush 20, CallPush 30, CallPop, CallPush (40::int)]"
  have p: "Pop \<lparr>buf = [40, 20 :: int], mask = 1, head = 3, tail = 1, pushActive = 0, popActive = 0\<rparr>
       = (Inr (20, True),
          \<lparr>buf = [40, 20], mask = 1, head = 3, tail = 2, pushActive = 0, popActive = 0\<rparr>)"
    by (simp add: Pop_def Let_def word_le_nat_alt)
  have c1: "contents \<lparr>buf = [40, 20 :: int], mask = 1, head = 3, tail = 1, pushActive = 0, popActive = 0\<rparr>
       = [20, 40]" by code_simp
  have c2: "contents \<lparr>buf = [40, 20 :: int], mask = 1, head = 3, tail = 2, pushActive = 0, popActive = 0\<rparr>
       = [40]" by code_simp
  note t = fifo_order[OF NewRingBuffer_two, of ?cs, unfolded run_two fst_conv snd_conv]
  from t p show ?thesis by (simp add: NewRingBuffer_two c1 c2)
qed

subsection \<open>Capacity\<close>

text \<open>
  Claim C2. On a ring just returned by \<open>NewRingBuffer\<close>, whatever the requested size and
  the element size, the
  capacity is at least one; the first \<open>Cap\<close> Push calls all return true; every further
  Push, however many, returns false; a Pop then succeeds (it returns the first value
  pushed), and the Push after it returns true again.
\<close>

theorem capacity_bound:
  assumes "NewRingBuffer esz sz = Some (Inr r)" "int (length vs) = Cap r"
  shows "1 \<le> Cap r
       \<and> fst (run r (map CallPush vs @ map CallPush ws @ [CallPop, CallPush v]))
           = replicate (length vs) (PushReturned True) @ replicate (length ws) (PushReturned False)
               @ [PopReturned (hd vs) True, PushReturned True]"
proof -
  from assms(2) have "length vs = length (buf r)" by (simp add: Cap_def)
  from fill_then_refuse[OF assms(1) this, of ws v] NewRingBuffer_fresh(5)[OF assms(1)]
  show ?thesis by (cases "buf r") (simp_all add: Cap_def)
qed

theorem capacity_bound_witness:
  "(NewRingBuffer 8 2 :: (panic + int RingBuffer) option) =
     Some (Inr \<lparr>buf = [0, 0], mask = 1, head = 0, tail = 0, pushActive = 0, popActive = 0\<rparr>)
   \<and> int (length [10, 20 :: int])
       = Cap \<lparr>buf = [0, 0 :: int], mask = 1, head = 0, tail = 0, pushActive = 0, popActive = 0\<rparr>
   \<and> fst (run \<lparr>buf = [0, 0 :: int], mask = 1, head = 0, tail = 0, pushActive = 0, popActive = 0\<rparr>
             [CallPush 10, CallPush 20, CallPush 30, CallPush 31, CallPop, CallPush 40])
       = [PushReturned True, PushReturned True, PushReturned False, PushReturned False,
          PopReturned 10 True, PushReturned True]"
proof -
  let ?r = "\<lparr>buf = [0, 0::int], mask = 1, head = 0, tail = 0, pushActive = 0, popActive = 0\<rparr>"
  have c: "int (length [10, 20 :: int]) = Cap ?r" by (simp add: Cap_def)
  from capacity_bound[OF NewRingBuffer_two c, of "[30, 31]" 40]
  show ?thesis using c
    by (simp add: NewRingBuffer_two numeral_2_eq_2 del: run.simps)
qed

subsection \<open>Push on a full ring, Pop on an empty ring\<close>

text \<open>
  Claim C3. In every state with \<open>head - tail \<ge> len(buf)\<close> at entry, Push leaves \<open>buf\<close>,
  \<open>head\<close> and \<open>tail\<close> as they were; if the push flag is clear at entry (the call gets past
  the guard), Push returns false, the whole state is unchanged, and the push flag is clear
  again on return.
\<close>

theorem Push_on_full_is_noop:
  assumes "of_nat (length (buf r)) \<le> head r - tail r"
  shows "buf (snd (Push r v)) = buf r \<and> head (snd (Push r v)) = head r
       \<and> tail (snd (Push r v)) = tail r
       \<and> (pushActive r = 0 \<longrightarrow> Push r v = (Inr False, r) \<and> pushActive (snd (Push r v)) = 0)"
  using assms by (simp add: Push_def Let_def)

theorem Push_on_full_is_noop_witness:
  "of_nat (length (buf \<lparr>buf = [5, 6::int], mask = 1, head = 7, tail = 5, pushActive = 0, popActive = 0\<rparr>))
      \<le> head \<lparr>buf = [5, 6::int], mask = 1, head = 7, tail = 5, pushActive = 0, popActive = 0\<rparr>
        - tail \<lparr>buf = [5, 6::int], mask = 1, head = 7, tail = 5, pushActive = 0, popActive = 0\<rparr>
   \<and> pushActive \<lparr>buf = [5, 6::int], mask = 1, head = 7, tail = 5, pushActive = 0, popActive = 0\<rparr> = 0
   \<and> Push \<lparr>buf = [5, 6::int], mask = 1, head = 7, tail = 5, pushActive = 0, popActive = 0\<rparr> 9
       = (Inr False, \<lparr>buf = [5, 6], mask = 1, head = 7, tail = 5, pushActive = 0, popActive = 0\<rparr>)"
proof -
  let ?r = "\<lparr>buf = [5, 6::int], mask = 1, head = 7, tail = 5, pushActive = 0, popActive = 0\<rparr>"
  have h: "of_nat (length (buf ?r)) \<le> head ?r - tail ?r" by simp
  have f: "pushActive ?r = 0" by simp
  from Push_on_full_is_noop[OF h, of 9] f show ?thesis using h by blast
qed

text \<open>
  Claim C4. In every state with \<open>tail \<ge> head\<close> at entry, Pop leaves \<open>buf\<close>, \<open>head\<close> and
  \<open>tail\<close> as they were; if the pop flag is clear at entry, Pop returns the zero value with
  false, the whole state is unchanged, and the pop flag is clear again on return. In
  particular this is what Pop returns on a ring just returned by \<open>NewRingBuffer\<close>.
\<close>

theorem Pop_on_empty_returns_empty:
  "(head r \<le> tail r \<longrightarrow>
       buf (snd (Pop r)) = buf r \<and> head (snd (Pop r)) = head r \<and> tail (snd (Pop r)) = tail r
       \<and> (popActive r = 0 \<longrightarrow> Pop r = (Inr (0, False), r) \<and> popActive (snd (Pop r)) = 0))
   \<and> (NewRingBuffer esz sz = Some (Inr r) \<longrightarrow> Pop r = (Inr (0, False), r))"
proof -
  have "NewRingBuffer esz sz = Some (Inr r) \<longrightarrow> Pop r = (Inr (0, False), r)"
  proof
    assume a: "NewRingBuffer esz sz = Some (Inr r)"
    from NewRingBuffer_Inr[OF a] show "Pop r = (Inr (0, False), r)"
      by (auto simp: Pop_def Let_def)
  qed
  then show ?thesis by (simp add: Pop_def Let_def)
qed

theorem Pop_on_empty_returns_empty_witness:
  "head \<lparr>buf = [0, 0::int], mask = 1, head = 0, tail = 0, pushActive = 0, popActive = 0\<rparr>
     \<le> tail \<lparr>buf = [0, 0::int], mask = 1, head = 0, tail = 0, pushActive = 0, popActive = 0\<rparr>
   \<and> popActive \<lparr>buf = [0, 0::int], mask = 1, head = 0, tail = 0, pushActive = 0, popActive = 0\<rparr> = 0
   \<and> (NewRingBuffer 8 2 :: (panic + int RingBuffer) option) =
       Some (Inr \<lparr>buf = [0, 0], mask = 1, head = 0, tail = 0, pushActive = 0, popActive = 0\<rparr>)
   \<and> Pop \<lparr>buf = [0, 0::int], mask = 1, head = 0, tail = 0, pushActive = 0, popActive = 0\<rparr>
       = (Inr (0, False), \<lparr>buf = [0, 0], mask = 1, head = 0, tail = 0, pushActive = 0, popActive = 0\<rparr>)"
proof -
  let ?r = "\<lparr>buf = [0, 0::int], mask = 1, head = 0, tail = 0, pushActive = 0, popActive = 0\<rparr>"
  have h: "head ?r \<le> tail ?r" and f: "popActive ?r = 0" by simp_all
  from Pop_on_empty_returns_empty[where r = ?r and esz = 8 and sz = 2] h f NewRingBuffer_two
  show ?thesis by blast
qed

subsection \<open>Power-of-two rounding\<close>




subsection \<open>Cursor invariants\<close>

text \<open>
  Claim C6, as the code has it. A ring returned by \<open>NewRingBuffer\<close> has
  \<open>head = tail = 0\<close>. After every sequence of Push and Pop calls the occupied count
  \<open>head - tail\<close>, computed modulo \<open>2^64\<close> as the code computes it, is at most the number
  of slots, and \<open>Len\<close> returns the number of queued values, between 0 and \<open>Cap\<close>. The
  comparison \<open>tail \<le> head\<close> holds as long as fewer than \<open>2^64\<close> Pushes have succeeded.
\<close>

theorem cursor_invariants:
  assumes "NewRingBuffer esz sz = Some (Inr r)"
  shows "head r = 0 \<and> tail r = 0
       \<and> head (snd (run r cs)) - tail (snd (run r cs)) \<le> of_nat (length (buf (snd (run r cs))))
       \<and> 0 \<le> Len (snd (run r cs)) \<and> Len (snd (run r cs)) \<le> Cap (snd (run r cs))
       \<and> Len (snd (run r cs)) = int (length (contents (snd (run r cs))))
       \<and> (length (pushed cs (fst (run r cs))) < 2 ^ 64 \<longrightarrow>
             tail (snd (run r cs)) \<le> head (snd (run r cs)))"
proof -
  obtain ocs r' where run: "run r cs = (ocs, r')" by (cases "run r cs")
  note fresh = NewRingBuffer_fresh[OF assms]
  note i = run_inv[OF fresh(1) run]
  from i have inv: "ring_inv r'" by simp
  from i have q: "pushed cs ocs = popped ocs @ contents r'" by (simp add: fresh(2))
  from i have h: "head r' = of_nat (length (pushed cs ocs))"
    and t: "tail r' = of_nat (length (popped ocs))" by (simp_all add: fresh)
  have le: "length (popped ocs) \<le> length (pushed cs ocs)" by (simp only: q) simp
  have "length (pushed cs ocs) < 2 ^ 64 \<longrightarrow> tail r' \<le> head r'"
  proof
    assume "length (pushed cs ocs) < 2 ^ 64"
    from cursors_ordered[OF le this] show "tail r' \<le> head r'" by (simp only: h t)
  qed
  with ring_inv_occupied[OF inv] fresh(3,4) show ?thesis by (simp add: run)
qed

theorem cursor_invariants_witness:
  "(NewRingBuffer 8 2 :: (panic + int RingBuffer) option) =
     Some (Inr \<lparr>buf = [0, 0], mask = 1, head = 0, tail = 0, pushActive = 0, popActive = 0\<rparr>)
   \<and> run \<lparr>buf = [0, 0::int], mask = 1, head = 0, tail = 0, pushActive = 0, popActive = 0\<rparr>
         [CallPush 10, CallPush 20, CallPush 30, CallPop, CallPush 40]
       = ([PushReturned True, PushReturned True, PushReturned False, PopReturned 10 True,
           PushReturned True],
          \<lparr>buf = [40, 20], mask = 1, head = 3, tail = 1, pushActive = 0, popActive = 0\<rparr>)
   \<and> length (pushed [CallPush 10, CallPush 20, CallPush 30, CallPop, CallPush (40::int)]
         [PushReturned True, PushReturned True, PushReturned False, PopReturned 10 True,
           PushReturned True]) < 2 ^ 64
   \<and> (1 :: uint64) \<le> 3
   \<and> (3 :: uint64) - 1 \<le> of_nat (length [40, 20 :: int])
   \<and> Len \<lparr>buf = [40, 20 :: int], mask = 1, head = 3, tail = 1, pushActive = 0, popActive = 0\<rparr> = 2
   \<and> Cap \<lparr>buf = [40, 20 :: int], mask = 1, head = 3, tail = 1, pushActive = 0, popActive = 0\<rparr> = 2"
proof -
  let ?r = "\<lparr>buf = [0, 0::int], mask = 1, head = 0, tail = 0, pushActive = 0, popActive = 0\<rparr>"
  let ?cs = "[CallPush 10, CallPush 20, CallPush 30, CallPop, CallPush (40::int)]"
  have l: "length (pushed ?cs
         [PushReturned True, PushReturned True, PushReturned False, PopReturned 10 True,
           PushReturned True]) < 2 ^ 64" by simp
  note t = cursor_invariants[OF NewRingBuffer_two, of ?cs, unfolded run_two fst_conv snd_conv]
  have c: "contents \<lparr>buf = [40, 20 :: int], mask = 1, head = 3, tail = 1, pushActive = 0, popActive = 0\<rparr>
       = [20, 40]" by code_simp
  from t l show ?thesis
    by (simp add: NewRingBuffer_two run_two c Cap_def del: run.simps)
qed

text \<open>The claim as first stated has \<open>tail \<le> head\<close> after every sequence of calls. On a ring
  of one slot, \<open>2^64 - 1\<close> rounds of Push and Pop followed by one more Push leave
  \<open>head = 0\<close> and \<open>tail = 2^64 - 1\<close>.\<close>

theorem head_wraps_past_tail_counterexample:
  "(NewRingBuffer 8 1 :: (panic + int RingBuffer) option) =
     Some (Inr \<lparr>buf = [0], mask = 0, head = 0, tail = 0, pushActive = 0, popActive = 0\<rparr>)
   \<and> \<not> tail (snd (run \<lparr>buf = [0::int], mask = 0, head = 0, tail = 0, pushActive = 0, popActive = 0\<rparr>
                      (concat (replicate (2 ^ 64 - 1) [CallPush 7, CallPop]) @ [CallPush 7])))
        \<le> head (snd (run \<lparr>buf = [0::int], mask = 0, head = 0, tail = 0, pushActive = 0, popActive = 0\<rparr>
                      (concat (replicate (2 ^ 64 - 1) [CallPush 7, CallPop]) @ [CallPush 7])))"
  by (simp only: head_wraps NewRingBuffer_one) simp

subsection \<open>Round trip\<close>

text \<open>
  Claim C7, as the code has it. In every reachable state in which the ring is empty
  (\<open>head = tail\<close>) and \<open>head\<close> is not \<open>2^64 - 1\<close>, Push of a value \<open>x\<close> returns true, the
  Pop that follows returns \<open>x\<close> with true, and \<open>Len\<close> is 0 afterwards.
\<close>

theorem round_trip_on_empty:
  assumes "NewRingBuffer esz sz = Some (Inr r0)" "head (snd (run r0 cs)) = tail (snd (run r0 cs))"
    "head (snd (run r0 cs)) + 1 \<noteq> 0"
  shows "\<exists>r1 r2. Push (snd (run r0 cs)) x = (Inr True, r1) \<and> Pop r1 = (Inr (x, True), r2)
           \<and> Len r2 = 0"
proof -
  obtain ocs r where run: "run r0 cs = (ocs, r)" by (cases "run r0 cs")
  from assms(2,3) have e: "head r = tail r" and nw: "head r + 1 \<noteq> 0" by (simp_all add: run)
  from run_inv[OF NewRingBuffer_fresh(1)[OF assms(1)] run]
  have inv: "ring_inv r" and len: "length (buf r) = length (buf r0)" by simp_all
  have "unat (head r - tail r) = 0" by (simp add: e)
  then have room: "unat (head r - tail r) < length (buf r)"
    using NewRingBuffer_fresh(5)[OF assms(1)] len by simp
  let ?r1 = "r\<lparr>buf := (buf r)[unat (head r AND mask r) := x], head := head r + 1\<rparr>"
  note p = ring_inv_Push[OF inv room, of x]
  have c0: "contents r = []" using length_contents[of r] by (simp add: e)
  have c1: "contents ?r1 = [x]" by (simp only: p(2) c0) simp
  have lt: "tail ?r1 < head ?r1" using word64_less_succ[OF nw] by (simp add: e)
  let ?r2 = "?r1\<lparr>tail := tail ?r1 + 1\<rparr>"
  from ring_inv_Pop(2)[OF p(1) lt] c1
  have v: "buf ?r1 ! unat (tail ?r1 AND mask ?r1) = x" by simp
  have "Pop ?r1 = (Inr (x, True), ?r2)" by (simp only: Pop_ok[OF p(1) lt] v)
  moreover have "Push r x = (Inr True, ?r1)" by (rule Push_ok[OF inv room])
  moreover have "Len ?r2 = 0" by (simp add: Len_def e)
  ultimately show ?thesis by (simp only: run snd_conv) blast
qed

theorem round_trip_on_empty_witness:
  "(NewRingBuffer 8 2 :: (panic + int RingBuffer) option) =
     Some (Inr \<lparr>buf = [0, 0], mask = 1, head = 0, tail = 0, pushActive = 0, popActive = 0\<rparr>)
   \<and> run \<lparr>buf = [0, 0::int], mask = 1, head = 0, tail = 0, pushActive = 0, popActive = 0\<rparr>
         [CallPush 10, CallPop]
       = ([PushReturned True, PopReturned 10 True],
          \<lparr>buf = [10, 0], mask = 1, head = 1, tail = 1, pushActive = 0, popActive = 0\<rparr>)
   \<and> (1 :: uint64) + 1 \<noteq> 0
   \<and> Push \<lparr>buf = [10, 0::int], mask = 1, head = 1, tail = 1, pushActive = 0, popActive = 0\<rparr> 20
       = (Inr True, \<lparr>buf = [10, 20], mask = 1, head = 2, tail = 1, pushActive = 0, popActive = 0\<rparr>)
   \<and> Pop \<lparr>buf = [10, 20::int], mask = 1, head = 2, tail = 1, pushActive = 0, popActive = 0\<rparr>
       = (Inr (20, True), \<lparr>buf = [10, 20], mask = 1, head = 2, tail = 2, pushActive = 0, popActive = 0\<rparr>)
   \<and> Len \<lparr>buf = [10, 20::int], mask = 1, head = 2, tail = 2, pushActive = 0, popActive = 0\<rparr> = 0"
proof -
  let ?r = "\<lparr>buf = [0, 0::int], mask = 1, head = 0, tail = 0, pushActive = 0, popActive = 0\<rparr>"
  let ?cs = "[CallPush (10::int), CallPop]"
  let ?s = "\<lparr>buf = [10, 0::int], mask = 1, head = 1, tail = 1, pushActive = 0, popActive = 0\<rparr>"
  have run: "run ?r ?cs = ([PushReturned True, PopReturned 10 True], ?s)" by code_simp
  have e: "head (snd (run ?r ?cs)) = tail (snd (run ?r ?cs))" by (simp only: run snd_conv) simp
  have nw: "head (snd (run ?r ?cs)) + 1 \<noteq> 0" by (simp only: run snd_conv) simp
  have p: "Push ?s 20
       = (Inr True, \<lparr>buf = [10, 20], mask = 1, head = 2, tail = 1, pushActive = 0, popActive = 0\<rparr>)"
    by (simp add: Push_def Let_def word_le_nat_alt)
  have q: "Pop \<lparr>buf = [10, 20::int], mask = 1, head = 2, tail = 1, pushActive = 0, popActive = 0\<rparr>
       = (Inr (20, True), \<lparr>buf = [10, 20], mask = 1, head = 2, tail = 2, pushActive = 0, popActive = 0\<rparr>)"
    by (simp add: Pop_def Let_def word_le_nat_alt)
  from round_trip_on_empty[OF NewRingBuffer_two e nw, of 20, unfolded run snd_conv] p q
  show ?thesis
    by (auto simp add: NewRingBuffer_two run simp del: run.simps)
qed

text \<open>The claim as first stated covers every reachable state. On a ring that already holds
  the value 1, Push of 2 followed by Pop returns 1, the oldest value, and \<open>Len\<close> is 1
  afterwards.\<close>

theorem round_trip_on_nonempty_counterexample:
  "(NewRingBuffer 8 2 :: (panic + int RingBuffer) option) =
     Some (Inr \<lparr>buf = [0, 0], mask = 1, head = 0, tail = 0, pushActive = 0, popActive = 0\<rparr>)
   \<and> fst (Pop (snd (Push (snd (run \<lparr>buf = [0, 0::int], mask = 1, head = 0, tail = 0,
                                      pushActive = 0, popActive = 0\<rparr> [CallPush 1])) 2)))
       = Inr (1, True)
   \<and> Len (snd (Pop (snd (Push (snd (run \<lparr>buf = [0, 0::int], mask = 1, head = 0, tail = 0,
                                      pushActive = 0, popActive = 0\<rparr> [CallPush 1])) 2)))) = 1"
proof -
  have "fst (Pop (snd (Push (snd (run \<lparr>buf = [0, 0::int], mask = 1, head = 0, tail = 0,
                                      pushActive = 0, popActive = 0\<rparr> [CallPush 1])) 2)))
       = Inr (1, True)" by code_simp
  moreover have "Len (snd (Pop (snd (Push (snd (run \<lparr>buf = [0, 0::int], mask = 1, head = 0, tail = 0,
                                      pushActive = 0, popActive = 0\<rparr> [CallPush 1])) 2)))) = 1"
    by code_simp
  ultimately show ?thesis using NewRingBuffer_two[where 'a = int] by blast
qed

subsection \<open>The guard under sequential use\<close>

text \<open>
  Claim C8. A Push that starts with the push flag clear does not take the guard's panic
  branch and returns with the push flag clear, on every path; likewise a Pop that starts
  with the pop flag clear. In a sequence of calls made one after the other on a ring
  returned by \<open>NewRingBuffer\<close> no call panics at all, and both flags are clear after the
  last call (hence before every call, a prefix of a sequence being a sequence).
\<close>

theorem guard_never_fires_sequentially:
  "(pushActive r = 0 \<longrightarrow> fst (Push r v) \<noteq> Inl ConcurrentPush \<and> pushActive (snd (Push r v)) = 0)
   \<and> (popActive r = 0 \<longrightarrow> fst (Pop r) \<noteq> Inl ConcurrentPop \<and> popActive (snd (Pop r)) = 0)
   \<and> (NewRingBuffer esz sz = Some (Inr r0) \<longrightarrow>
         (\<forall>oc\<in>set (fst (run r0 cs)). \<not> is_panic oc)
         \<and> pushActive (snd (run r0 cs)) = 0 \<and> popActive (snd (run r0 cs)) = 0)"
proof -
  have "NewRingBuffer esz sz = Some (Inr r0) \<longrightarrow>
         (\<forall>oc\<in>set (fst (run r0 cs)). \<not> is_panic oc)
         \<and> pushActive (snd (run r0 cs)) = 0 \<and> popActive (snd (run r0 cs)) = 0"
  proof
    assume a: "NewRingBuffer esz sz = Some (Inr r0)"
    obtain ocs r' where run: "run r0 cs = (ocs, r')" by (cases "run r0 cs")
    from run_inv[OF NewRingBuffer_fresh(1)[OF a] run]
    have "ring_inv r'" "\<forall>oc\<in>set ocs. \<not> is_panic oc" by simp_all
    then show "(\<forall>oc\<in>set (fst (run r0 cs)). \<not> is_panic oc)
         \<and> pushActive (snd (run r0 cs)) = 0 \<and> popActive (snd (run r0 cs)) = 0"
      by (simp add: run ring_inv_def)
  qed
  moreover have "pushActive r = 0 \<longrightarrow> fst (Push r v) \<noteq> Inl ConcurrentPush \<and> pushActive (snd (Push r v)) = 0"
    by (simp add: Push_def Let_def)
  moreover have "popActive r = 0 \<longrightarrow> fst (Pop r) \<noteq> Inl ConcurrentPop \<and> popActive (snd (Pop r)) = 0"
    by (simp add: Pop_def Let_def)
  ultimately show ?thesis by blast
qed

theorem guard_never_fires_sequentially_witness:
  "pushActive \<lparr>buf = [0, 0::int], mask = 1, head = 0, tail = 0, pushActive = 0, popActive = 0\<rparr> = 0
   \<and> popActive \<lparr>buf = [0, 0::int], mask = 1, head = 0, tail = 0, pushActive = 0, popActive = 0\<rparr> = 0
   \<and> Push \<lparr>buf = [0, 0::int], mask = 1, head = 0, tail = 0, pushActive = 0, popActive = 0\<rparr> 10
       = (Inr True, \<lparr>buf = [10, 0], mask = 1, head = 1, tail = 0, pushActive = 0, popActive = 0\<rparr>)
   \<and> Pop \<lparr>buf = [0, 0::int], mask = 1, head = 0, tail = 0, pushActive = 0, popActive = 0\<rparr>
       = (Inr (0, False), \<lparr>buf = [0, 0], mask = 1, head = 0, tail = 0, pushActive = 0, popActive = 0\<rparr>)
   \<and> (NewRingBuffer 8 2 :: (panic + int RingBuffer) option) =
       Some (Inr \<lparr>buf = [0, 0], mask = 1, head = 0, tail = 0, pushActive = 0, popActive = 0\<rparr>)
   \<and> run \<lparr>buf = [0, 0::int], mask = 1, head = 0, tail = 0, pushActive = 0, popActive = 0\<rparr>
         [CallPush 10, CallPush 20, CallPush 30, CallPop, CallPush 40]
       = ([PushReturned True, PushReturned True, PushReturned False, PopReturned 10 True,
           PushReturned True],
          \<lparr>buf = [40, 20], mask = 1, head = 3, tail = 1, pushActive = 0, popActive = 0\<rparr>)
   \<and> list_all (\<lambda>oc. \<not> is_panic oc)
         [PushReturned True, PushReturned True, PushReturned False, PopReturned (10::int) True,
           PushReturned True]"
proof -
  let ?r = "\<lparr>buf = [0, 0::int], mask = 1, head = 0, tail = 0, pushActive = 0, popActive = 0\<rparr>"
  let ?cs = "[CallPush 10, CallPush 20, CallPush 30, CallPop, CallPush (40::int)]"
  have p: "Push ?r 10
       = (Inr True, \<lparr>buf = [10, 0], mask = 1, head = 1, tail = 0, pushActive = 0, popActive = 0\<rparr>)"
    by (simp add: Push_def Let_def word_le_nat_alt)
  have q: "Pop ?r = (Inr (0, False), ?r)" by (simp add: Pop_def Let_def)
  note t = guard_never_fires_sequentially[where r = ?r and v = 10 and esz = 8
      and sz = 2 and ?r0.0 = ?r and cs = ?cs, unfolded run_two fst_conv snd_conv]
  from t p q show ?thesis
    by (simp add: NewRingBuffer_two run_two del: run.simps)
qed

subsection \<open>Termination of the rounding loop\<close>

text \<open>
  Claim C9, as the code has it. For every non-negative size the rounding loop of
  \<open>NewRingBuffer\<close> exits. For every negative size other than the least \<^verbatim>\<open>int\<close>,
  \<open>-2^63\<close>, the loop never exits. For the size \<open>-2^63\<close> the conversion to \<^verbatim>\<open>uint64\<close>
  gives \<open>2^63\<close>, itself a power of two, and the loop exits with \<open>n = 2^63\<close>.
\<close>

theorem rounding_loop_termination:
  "(0 \<le> sint sz \<longrightarrow> (\<exists>n. round_up_loop 1 sz = Some n))
   \<and> (sint sz < 0 \<and> sz \<noteq> 2 ^ 63 \<longrightarrow> round_up_loop 1 sz = None)
   \<and> (sz = 2 ^ 63 \<longrightarrow> sint sz < 0 \<and> round_up_loop 1 sz = Some (2 ^ 63))"
proof (intro conjI impI)
  assume "0 \<le> sint sz"
  then have "unat sz < 2 ^ 63" by (simp only: sint64_nonneg)
  then have "unat sz \<le> unat ((2::uint64) ^ 63)" by (simp only: unat_2p63)
  then have "sz \<le> 2 ^ 63" by (simp only: word_le_nat_alt)
  from round_up_loop_total[OF this] show "\<exists>n. round_up_loop 1 sz = Some n" by blast
next
  assume a: "sint sz < 0 \<and> sz \<noteq> 2 ^ 63"
  then have "2 ^ 63 \<le> unat sz" by (simp only: sint64_neg)
  then have "unat ((2::uint64) ^ 63) \<le> unat sz" by (simp only: unat_2p63)
  then have "2 ^ 63 \<le> sz" by (simp only: word_le_nat_alt)
  with a have "2 ^ 63 < sz" by (simp only: order_less_le) simp
  then show "round_up_loop 1 sz = None" by (rule round_up_loop_diverges)
next
  assume e: "sz = 2 ^ 63"
  have "(2::nat) ^ 63 \<le> unat ((2::uint64) ^ 63)" by (simp only: unat_2p63)
  then show "sint sz < 0" by (simp only: e sint64_neg)
next
  assume e: "sz = 2 ^ 63"
  have le: "(2::uint64) ^ 63 \<le> 2 ^ 63" by (rule order_refl)
  from round_up_loop_total[OF le] obtain m where m: "m \<le> 63"
    "round_up_loop 1 (2 ^ 63) = Some (2 ^ m)" "(2::uint64) ^ 63 \<le> 2 ^ m" by blast
  have "m < 64" using m(1) by simp
  then have "63 \<le> m" using m(3) pow64_le_iff[of 63 m] by simp
  with m(1) have "m = 63" by simp
  with m(2) show "round_up_loop 1 sz = Some (2 ^ 63)" by (simp only: e)
qed

theorem rounding_loop_termination_witness:
  "0 \<le> sint (5 :: go_int) \<and> round_up_loop 1 5 = Some 8
   \<and> sint (- 1 :: go_int) < 0 \<and> (- 1 :: go_int) \<noteq> 2 ^ 63 \<and> round_up_loop 1 (- 1) = None
   \<and> sint ((2 :: go_int) ^ 63) < 0 \<and> round_up_loop 1 (2 ^ 63) = Some (2 ^ 63)"
proof -
  have a: "0 \<le> sint (5 :: go_int)" by simp
  have b: "sint (- 1 :: go_int) < 0 \<and> (- 1 :: go_int) \<noteq> 2 ^ 63" by simp
  have c: "round_up_loop 1 5 = Some 8" by (simp add: round_up_loop.simps)
  from rounding_loop_termination[of "- 1"] b
  have d: "round_up_loop 1 (- 1) = None" by blast
  from rounding_loop_termination[of "2 ^ 63"]
  have e: "sint ((2 :: go_int) ^ 63) < 0 \<and> round_up_loop 1 (2 ^ 63) = Some (2 ^ 63)" by blast
  from a b c d e show ?thesis by blast
qed

text \<open>The claim as first stated says that the loop never exits for any negative size; the
  least \<^verbatim>\<open>int\<close> is a negative size for which it does.\<close>

theorem negative_size_loop_exits_counterexample:
  "sint ((2 :: go_int) ^ 63) < 0 \<and> round_up_loop 1 (2 ^ 63) \<noteq> None"
proof -
  have "(2::nat) ^ 63 \<le> unat ((2::uint64) ^ 63)" by (simp only: unat_2p63)
  then have "sint ((2 :: go_int) ^ 63) < 0" by (simp only: sint64_neg)
  moreover have "round_up_loop 1 (2 ^ 63) = Some (2 ^ 63)"
    by (simp add: round_up_loop.simps)
  ultimately show ?thesis by simp
qed

subsection \<open>The guarded and the unguarded ring\<close>

text \<open>
  Claim C10. The guarded ring is taken at \<^verbatim>\<open>int\<close> elements (8 bytes), the element type of
  \<open>spscRing\<close>. For the same requested size the two constructors behave alike (both run
  forever, both panic, or both return rings with the same \<open>buf\<close>, \<open>mask\<close>, \<open>head\<close> and
  \<open>tail\<close>), and for the same sequence of calls made one after the other the unguarded ring
  returns the same results as the guarded one and ends with the same \<open>buf\<close>, \<open>mask\<close>,
  \<open>head\<close> and \<open>tail\<close>; the guard flags are clear after the run.
\<close>

theorem guarded_unguarded_equivalent:
  "newSPSCRing sz = map_option (map_sum id unguarded) (NewRingBuffer 8 sz)
   \<and> (NewRingBuffer esz sz = Some (Inr r) \<longrightarrow>
        run_spscRing (unguarded r) cs = (fst (run r cs), unguarded (snd (run r cs)))
        \<and> pushActive (snd (run r cs)) = 0 \<and> popActive (snd (run r cs)) = 0)"
proof -
  have "NewRingBuffer esz sz = Some (Inr r) \<longrightarrow>
        run_spscRing (unguarded r) cs = (fst (run r cs), unguarded (snd (run r cs)))
        \<and> pushActive (snd (run r cs)) = 0 \<and> popActive (snd (run r cs)) = 0"
  proof
    assume a: "NewRingBuffer esz sz = Some (Inr r)"
    from NewRingBuffer_fresh(1)[OF a] have "pushActive r = 0" "popActive r = 0"
      unfolding ring_inv_def by simp_all
    then show "run_spscRing (unguarded r) cs = (fst (run r cs), unguarded (snd (run r cs)))
        \<and> pushActive (snd (run r cs)) = 0 \<and> popActive (snd (run r cs)) = 0"
      by (rule run_unguarded)
  qed
  with newSPSCRing_unguarded show ?thesis by blast
qed

theorem guarded_unguarded_equivalent_witness:
  "(NewRingBuffer 8 2 :: (panic + go_int RingBuffer) option) =
     Some (Inr \<lparr>buf = [0, 0], mask = 1, head = 0, tail = 0, pushActive = 0, popActive = 0\<rparr>)
   \<and> newSPSCRing 2 = Some (Inr \<lparr>spscRing.buf = [0, 0], mask = 1, head = 0, tail = 0\<rparr>)
   \<and> run \<lparr>buf = [0, 0::go_int], mask = 1, head = 0, tail = 0, pushActive = 0, popActive = 0\<rparr>
         [CallPush 10, CallPush 20, CallPush 30, CallPop, CallPush 40]
       = ([PushReturned True, PushReturned True, PushReturned False, PopReturned 10 True,
           PushReturned True],
          \<lparr>buf = [40, 20], mask = 1, head = 3, tail = 1, pushActive = 0, popActive = 0\<rparr>)
   \<and> run_spscRing \<lparr>spscRing.buf = [0, 0], mask = 1, head = 0, tail = 0\<rparr>
         [CallPush 10, CallPush 20, CallPush 30, CallPop, CallPush 40]
       = ([PushReturned True, PushReturned True, PushReturned False, PopReturned 10 True,
           PushReturned True],
          \<lparr>spscRing.buf = [40, 20], mask = 1, head = 3, tail = 1\<rparr>)"
proof -
  let ?r = "\<lparr>buf = [0, 0::go_int], mask = 1, head = 0, tail = 0, pushActive = 0, popActive = 0\<rparr>"
  let ?cs = "[CallPush 10, CallPush 20, CallPush 30, CallPop, CallPush (40::go_int)]"
  have n: "(NewRingBuffer 8 2 :: (panic + go_int RingBuffer) option) = Some (Inr ?r)"
    by (rule NewRingBuffer_two)
  have r: "run ?r ?cs
       = ([PushReturned True, PushReturned True, PushReturned False, PopReturned 10 True,
           PushReturned True],
          \<lparr>buf = [40, 20], mask = 1, head = 3, tail = 1, pushActive = 0, popActive = 0\<rparr>)"
    by code_simp
  note t = guarded_unguarded_equivalent[where sz = 2 and esz = 8 and r = ?r
      and cs = ?cs, unfolded r fst_conv snd_conv n]
  from t n r show ?thesis
    by (simp add: unguarded_def del: run.simps run_spscRing.simps)
qed

end
